theory Spec2Isabelle
  imports Complex_Main "HOL-Library.AList" "HOL-Library.Product_Lexorder"
begin

section \<open>The storage engine of fdb\_server.py\<close>

text \<open>
  The engine (class \<open>FDBEngine\<close>) is a write-back cache, a Python dict from keys to
  \<open>CacheEntry\<close> objects, over a directory holding one pickled record per key. The model
  passes the state explicitly: the dict, the files under \<open>data_dir\<close>, the configuration
  and the \<open>_running\<close> flag. What the environment decides is an argument of each
  operation: the reading of the clock (\<open>time.time()\<close>) and, for every disk access, whether
  it succeeds.
\<close>

subsection \<open>Data\<close>

text \<open>
  A key is a Python \<open>str\<close>, the sequence of its characters. The engine takes the length
  of a key, compares keys and hashes them; it never looks inside a character. So the type
  of the characters is left open: at the Unicode code points the keys are the strings of
  Python, lone surrogates included. The examples take 8-bit characters.
\<close>

type_synonym 'c key = "'c list"

text \<open>A value is any Python object; the engine only ever asks whether it is \<open>None\<close>.\<close>

datatype 'v pyval = PyNone | PyObj 'v

text \<open>
  \<open>CacheEntry\<close>. The field \<open>value\<close> is called \<open>val\<close> here. Timestamps are the floats
  of \<open>time.time()\<close>, which the engine only compares: they are read as reals.
\<close>

record 'v CacheEntry =
  val :: "'v pyval"
  timestamp :: real
  dirty :: bool
  access_count :: int

text \<open>\<open>FDBConfig\<close>, the fields the engine reads.\<close>

record FDBConfig =
  data_dir :: string
  cache_size :: int
  file_extension :: string

text \<open>
  A file of the data directory is the pickled dict \<open>{'key', 'value', 'timestamp'}\<close>, or
  what an interrupted write left behind (\<open>open(path, 'wb')\<close> truncates before
  \<open>pickle.dump\<close> runs). The stored timestamp is never read back and is left out.
\<close>

datatype ('c, 'v) disk_file = Record "'c key" "'v pyval" | Truncated

type_synonym ('c, 'v) files = "string \<rightharpoonup> ('c, 'v) disk_file"

text \<open>
  A Python dict keeps its keys in insertion order, and \<open>sorted\<close> is stable, so the order
  decides which of two equally ranked entries is evicted: the dict is an association list,
  \<open>d[k] = e\<close> is \<open>AList.update\<close> (in place for a key that is there, at the end for a new
  one) and \<open>del d[k]\<close> is \<open>AList.delete\<close>.
\<close>

type_synonym ('c, 'v) cache = "('c key \<times> 'v CacheEntry) list"

record ('c, 'v) engine =
  config :: FDBConfig
  cache :: "('c, 'v) cache"
  running :: bool
  files :: "('c, 'v) files"

text \<open>
  The exceptions that reach the caller: the validator's \<open>ValueError\<close>, and the
  \<open>UnicodeEncodeError\<close> of \<open>key.encode()\<close> where nothing catches it.
\<close>

datatype error = ValueError string | UnicodeEncodeError

text \<open>How the disk behaves during one access.\<close>

datatype io = IoOk | IoErr

text \<open>
  A write fails before the file is opened (\<open>mkdir\<close>, \<open>open\<close>) and leaves the disk as it
  was, or while pickling and leaves a truncated file.
\<close>

datatype wr = WrOk | WrFailEarly | WrFailLate

text \<open>
  An element of the list \<open>asyncio.gather(..., return_exceptions=True)\<close> returns: what the
  task returned, or the exception it raised.
\<close>

datatype 'r outcome = Returned 'r | Raised

fun is_exception :: "'r outcome \<Rightarrow> bool" where
  "is_exception (Returned r) = False"
| "is_exception Raised = True"

subsection \<open>Keys and paths\<close>

text \<open>\<open>KeyValidator.validate_key\<close>: \<open>if not v or len(v) > 256: raise ValueError\<close>.\<close>

definition validate_key :: "'c key \<Rightarrow> error + 'c key" where
  "validate_key v =
     (if v = [] \<or> length v > 256 then Inl (ValueError ''Key must be 1-256 characters'')
      else Inr v)"

text \<open>
  \<open>hashlib.md5(key.encode()).hexdigest()\<close> is not code of the repository: it is the
  parameter \<open>md5\<close> of the operations, which is \<open>None\<close> for a key that \<open>key.encode()\<close>
  refuses (a string with a lone surrogate passes the validator and cannot be encoded).
\<close>

type_synonym 'c digest = "'c key \<Rightarrow> string option"

text \<open>\<open>_get_file_path\<close>, which raises where \<open>key.encode()\<close> does.\<close>

definition get_file_path :: "'c digest \<Rightarrow> FDBConfig \<Rightarrow> 'c key \<Rightarrow> error + string" where
  "get_file_path md5 cfg k =
     (case md5 k of
        None \<Rightarrow> Inl UnicodeEncodeError
      | Some key_hash \<Rightarrow>
          (let subdir = take 2 key_hash;
               filename = key_hash @ file_extension cfg
           in Inr (data_dir cfg @ ''/'' @ subdir @ ''/'' @ filename)))"

subsection \<open>The disk store\<close>

text \<open>
  \<open>_save_to_disk\<close>: every exception is caught and turned into \<open>False\<close>, that of
  \<open>_get_file_path\<close> as well, which is called inside the \<open>try\<close>.
\<close>

definition save_to_disk ::
  "'c digest \<Rightarrow> FDBConfig \<Rightarrow> wr \<Rightarrow> 'c key \<Rightarrow> 'v pyval \<Rightarrow> ('c, 'v) files \<Rightarrow> ('c, 'v) files \<times> bool" where
  "save_to_disk md5 cfg w k v fs =
     (case get_file_path md5 cfg k of
        Inl e \<Rightarrow> (fs, False)
      | Inr file_path \<Rightarrow>
          (case w of
             WrOk \<Rightarrow> (fs(file_path \<mapsto> Record k v), True)
           | WrFailEarly \<Rightarrow> (fs, False)
           | WrFailLate \<Rightarrow> (fs(file_path \<mapsto> Truncated), False)))"

text \<open>\<open>_load_from_disk\<close>: a missing file, and every exception, is \<open>None\<close>.\<close>

definition load_from_disk ::
  "'c digest \<Rightarrow> FDBConfig \<Rightarrow> io \<Rightarrow> 'c key \<Rightarrow> ('c, 'v) files \<Rightarrow> 'v pyval" where
  "load_from_disk md5 cfg i k fs =
     (case get_file_path md5 cfg k of
        Inl e \<Rightarrow> PyNone
      | Inr file_path \<Rightarrow>
          (case fs file_path of
             None \<Rightarrow> PyNone
           | Some f \<Rightarrow>
               (case i of
                  IoErr \<Rightarrow> PyNone
                | IoOk \<Rightarrow> (case f of Truncated \<Rightarrow> PyNone | Record k' v \<Rightarrow> v))))"

text \<open>
  \<open>_remove_from_disk\<close>: a missing file is a success, every exception is \<open>False\<close>.
\<close>

definition remove_from_disk ::
  "'c digest \<Rightarrow> FDBConfig \<Rightarrow> io \<Rightarrow> 'c key \<Rightarrow> ('c, 'v) files \<Rightarrow> ('c, 'v) files \<times> bool" where
  "remove_from_disk md5 cfg i k fs =
     (case get_file_path md5 cfg k of
        Inl e \<Rightarrow> (fs, False)
      | Inr file_path \<Rightarrow>
          (case fs file_path of
             None \<Rightarrow> (fs, True)
           | Some f \<Rightarrow>
               (case i of IoOk \<Rightarrow> (fs(file_path := None), True) | IoErr \<Rightarrow> (fs, False))))"

text \<open>
  \<open>_clear_disk\<close>: \<open>shutil.rmtree\<close> of the data directory, then \<open>mkdir\<close>. When it
  raises, the files removed so far are gone: a failure carries the set of their paths.
\<close>

datatype clr = ClrOk | ClrFail "string set"

definition clear_disk :: "clr \<Rightarrow> ('c, 'v) files \<Rightarrow> ('c, 'v) files \<times> bool" where
  "clear_disk c fs =
     (case c of ClrOk \<Rightarrow> (Map.empty, True) | ClrFail gone \<Rightarrow> (fs |` (- gone), False))"

subsection \<open>Eviction\<close>

text \<open>
  The loop of \<open>_evict_lru\<close> over the chosen items. The result of \<open>_save_to_disk\<close> is
  dropped, and \<open>del self._cache[key]\<close> follows in every case. \<open>ws k\<close> is how the write
  of key \<open>k\<close> goes.
\<close>

fun evict_loop ::
  "'c digest \<Rightarrow> ('c key \<Rightarrow> wr) \<Rightarrow> ('c key \<times> 'v CacheEntry) list \<Rightarrow> ('c, 'v) engine
     \<Rightarrow> ('c, 'v) engine" where
  "evict_loop md5 ws [] s = s"
| "evict_loop md5 ws ((k, entry) # rest) s =
     (let s1 = (if dirty entry
                then s\<lparr>files := fst (save_to_disk md5 (config s) (ws k) k (val entry) (files s))\<rparr>
                else s);
          s2 = s1\<lparr>cache := AList.delete k (cache s1)\<rparr>
      in evict_loop md5 ws rest s2)"

text \<open>The sort key of \<open>_evict_lru\<close>, a Python tuple: compared lexicographically.\<close>

definition rank :: "'c key \<times> 'v CacheEntry \<Rightarrow> int \<times> real" where
  "rank x = (access_count (snd x), timestamp (snd x))"

definition sorted_items :: "('c, 'v) cache \<Rightarrow> ('c key \<times> 'v CacheEntry) list" where
  "sorted_items c = sort_key rank c"

definition to_remove :: "('c, 'v) cache \<Rightarrow> nat" where
  "to_remove c = length (sorted_items c) div 10 + 1"

definition evict_lru :: "'c digest \<Rightarrow> ('c key \<Rightarrow> wr) \<Rightarrow> ('c, 'v) engine \<Rightarrow> ('c, 'v) engine" where
  "evict_lru md5 ws s =
     (if int (length (cache s)) \<le> cache_size (config s) then s
      else evict_loop md5 ws (take (to_remove (cache s)) (sorted_items (cache s))) s)"

subsection \<open>The facade\<close>

text \<open>
  Each operation returns what the caller gets, the exception or the result, and the state
  it leaves. \<open>__post_init__\<close> starts with an empty dict over the files that are there.
\<close>

definition create_engine :: "FDBConfig \<Rightarrow> ('c, 'v) files \<Rightarrow> ('c, 'v) engine" where
  "create_engine cfg fs = \<lparr>config = cfg, cache = [], running = True, files = fs\<rparr>"

text \<open>\<open>set\<close>, up to the test of the size: the new entry is in the dict.\<close>

definition set_insert :: "real \<Rightarrow> 'c key \<Rightarrow> 'v pyval \<Rightarrow> ('c, 'v) engine \<Rightarrow> ('c, 'v) engine" where
  "set_insert now k v s =
     (let entry = \<lparr>val = v, timestamp = now, dirty = True, access_count = 1\<rparr>
      in s\<lparr>cache := AList.update k entry (cache s)\<rparr>)"

text \<open>
  \<open>set\<close>, called \<open>set_key\<close> here (\<open>set\<close> is the set of a list in HOL): the
  insertion, then \<open>_evict_lru\<close> if the dict is over the ceiling. It returns \<open>True\<close>.
\<close>

definition set_key ::
  "'c digest \<Rightarrow> real \<Rightarrow> ('c key \<Rightarrow> wr) \<Rightarrow> 'c key \<Rightarrow> 'v pyval \<Rightarrow> ('c, 'v) engine
     \<Rightarrow> (error + bool) \<times> ('c, 'v) engine" where
  "set_key md5 now ws k0 v s =
     (case validate_key k0 of
        Inl e \<Rightarrow> (Inl e, s)
      | Inr k \<Rightarrow>
          (let s1 = set_insert now k v s in
           if int (length (cache s1)) > cache_size (config s1)
           then (Inr True, evict_lru md5 ws s1)
           else (Inr True, s1)))"

text \<open>
  \<open>get\<close>: a hit counts the access and returns the value of the entry; a miss loads the
  value from disk and, unless it is \<open>None\<close>, installs a clean entry for it.
\<close>

definition get ::
  "'c digest \<Rightarrow> real \<Rightarrow> io \<Rightarrow> 'c key \<Rightarrow> ('c, 'v) engine \<Rightarrow> (error + 'v pyval) \<times> ('c, 'v) engine" where
  "get md5 now i k0 s =
     (case validate_key k0 of
        Inl e \<Rightarrow> (Inl e, s)
      | Inr k \<Rightarrow>
          (case map_of (cache s) k of
             Some entry \<Rightarrow>
               (Inr (val entry),
                s\<lparr>cache := AList.update k (entry\<lparr>access_count := access_count entry + 1\<rparr>) (cache s)\<rparr>)
           | None \<Rightarrow>
               (let v = load_from_disk md5 (config s) i k (files s) in
                if v \<noteq> PyNone
                then (Inr v,
                      s\<lparr>cache := AList.update k
                          \<lparr>val = v, timestamp = now, dirty = False, access_count = 1\<rparr> (cache s)\<rparr>)
                else (Inr v, s))))"

text \<open>\<open>delete\<close>: out of the dict if it is there, then \<open>_remove_from_disk\<close>.\<close>

definition delete ::
  "'c digest \<Rightarrow> io \<Rightarrow> 'c key \<Rightarrow> ('c, 'v) engine \<Rightarrow> (error + bool) \<times> ('c, 'v) engine" where
  "delete md5 i k0 s =
     (case validate_key k0 of
        Inl e \<Rightarrow> (Inl e, s)
      | Inr k \<Rightarrow>
          (let s1 = (if map_of (cache s) k \<noteq> None then s\<lparr>cache := AList.delete k (cache s)\<rparr> else s);
               (fs, r) = remove_from_disk md5 (config s1) i k (files s1)
           in (Inr r, s1\<lparr>files := fs\<rparr>)))"

text \<open>
  \<open>exists\<close>: in the dict, or a file at the path of the key. \<open>_get_file_path\<close> is
  called outside any \<open>try\<close>: its exception is the caller's.
\<close>

definition exists :: "'c digest \<Rightarrow> 'c key \<Rightarrow> ('c, 'v) engine \<Rightarrow> (error + bool) \<times> ('c, 'v) engine" where
  "exists md5 k0 s =
     (case validate_key k0 of
        Inl e \<Rightarrow> (Inl e, s)
      | Inr k \<Rightarrow>
          (if map_of (cache s) k \<noteq> None then (Inr True, s)
           else (case get_file_path md5 (config s) k of
                   Inl e \<Rightarrow> (Inl e, s)
                 | Inr file_path \<Rightarrow> (Inr (files s file_path \<noteq> None), s))))"

text \<open>\<open>flushdb\<close>: \<open>self._cache.clear()\<close>, then \<open>_clear_disk\<close>.\<close>

definition flushdb :: "clr \<Rightarrow> ('c, 'v) engine \<Rightarrow> (error + bool) \<times> ('c, 'v) engine" where
  "flushdb c s =
     (let s1 = s\<lparr>cache := []\<rparr>;
          (fs, r) = clear_disk c (files s1)
      in (Inr r, s1\<lparr>files := fs\<rparr>))"

subsection \<open>Flush\<close>

text \<open>
  \<open>flush\<close> runs in three parts, and other coroutines run at its \<open>await\<close>: the snapshot
  of the dirty entries, the writes on the worker pool, and the loop that clears the flags.
\<close>

definition dirty_entries :: "('c, 'v) cache \<Rightarrow> ('c key \<times> 'v CacheEntry) list" where
  "dirty_entries c = filter (\<lambda>(k, v). dirty v) c"

text \<open>The tasks of \<open>flush\<close>, in the order of the snapshot, and the list \<open>gather\<close> returns.\<close>

fun run_saves ::
  "'c digest \<Rightarrow> FDBConfig \<Rightarrow> ('c key \<Rightarrow> wr) \<Rightarrow> ('c key \<times> 'v CacheEntry) list \<Rightarrow> ('c, 'v) files
     \<Rightarrow> ('c, 'v) files \<times> bool outcome list" where
  "run_saves md5 cfg ws [] fs = (fs, [])"
| "run_saves md5 cfg ws ((k, entry) # rest) fs =
     (let (fs1, r) = save_to_disk md5 cfg (ws k) k (val entry) fs;
          (fs2, rs) = run_saves md5 cfg ws rest fs1
      in (fs2, Returned r # rs))"

text \<open>
  The last loop of \<open>flush\<close>, over \<open>zip(dirty_entries.keys(), results)\<close>:
  \<open>if key in self._cache and not isinstance(result, Exception)\<close>.
\<close>

fun flush_commit ::
  "('c key \<times> bool outcome) list \<Rightarrow> ('c, 'v) cache \<Rightarrow> int \<Rightarrow> ('c, 'v) cache \<times> int" where
  "flush_commit [] c dirty_count = (c, dirty_count)"
| "flush_commit ((k, result) # rest) c dirty_count =
     (case map_of c k of
        Some entry \<Rightarrow>
          (if \<not> is_exception result
           then flush_commit rest (AList.update k (entry\<lparr>dirty := False\<rparr>) c) (dirty_count + 1)
           else flush_commit rest c dirty_count)
      | None \<Rightarrow> flush_commit rest c dirty_count)"

text \<open>The second part: the writes of a snapshot, on the state as it is then.\<close>

definition flush_writes ::
  "'c digest \<Rightarrow> ('c key \<Rightarrow> wr) \<Rightarrow> ('c key \<times> 'v CacheEntry) list \<Rightarrow> ('c, 'v) engine
     \<Rightarrow> bool outcome list \<times> ('c, 'v) engine" where
  "flush_writes md5 ws snapshot s =
     (let (fs, results) = run_saves md5 (config s) ws snapshot (files s)
      in (results, s\<lparr>files := fs\<rparr>))"

text \<open>The third part: the flags, on the dict as it is then.\<close>

definition flush_finish ::
  "('c key \<times> 'v CacheEntry) list \<Rightarrow> bool outcome list \<Rightarrow> ('c, 'v) engine
     \<Rightarrow> int \<times> ('c, 'v) engine" where
  "flush_finish snapshot results s =
     (let (c, dirty_count) = flush_commit (zip (map fst snapshot) results) (cache s) 0
      in (dirty_count, s\<lparr>cache := c\<rparr>))"

text \<open>\<open>flush\<close> with nothing running at its \<open>await\<close>.\<close>

definition flush :: "'c digest \<Rightarrow> ('c key \<Rightarrow> wr) \<Rightarrow> ('c, 'v) engine \<Rightarrow> int \<times> ('c, 'v) engine" where
  "flush md5 ws s =
     (let snapshot = dirty_entries (cache s) in
      if snapshot = [] then (0, s)
      else (let (results, s1) = flush_writes md5 ws snapshot s
            in flush_finish snapshot results s1))"

text \<open>\<open>stop\<close>: the flag, then the last \<open>flush\<close>.\<close>

definition stop :: "'c digest \<Rightarrow> ('c key \<Rightarrow> wr) \<Rightarrow> ('c, 'v) engine \<Rightarrow> ('c, 'v) engine" where
  "stop md5 ws s = snd (flush md5 ws (s\<lparr>running := False\<rparr>))"

subsection \<open>Sequences of calls\<close>

text \<open>
  A caller that awaits each call before it makes the next: every call runs to its end on
  the state the call before it left. A call carries what the environment decides during it.
\<close>

datatype ('c, 'v) call =
    Set real "'c key \<Rightarrow> wr" "'c key" "'v pyval"
  | Get real io "'c key"
  | Delete io "'c key"
  | Exists "'c key"
  | Flush "'c key \<Rightarrow> wr"
  | FlushDb clr

fun step :: "'c digest \<Rightarrow> ('c, 'v) call \<Rightarrow> ('c, 'v) engine \<Rightarrow> ('c, 'v) engine" where
  "step md5 (Set now ws k v) s = snd (set_key md5 now ws k v s)"
| "step md5 (Get now i k) s = snd (get md5 now i k s)"
| "step md5 (Delete i k) s = snd (delete md5 i k s)"
| "step md5 (Exists k) s = snd (exists md5 k s)"
| "step md5 (Flush ws) s = snd (flush md5 ws s)"
| "step md5 (FlushDb c) s = snd (flushdb c s)"

definition run :: "'c digest \<Rightarrow> ('c, 'v) call list \<Rightarrow> ('c, 'v) engine \<Rightarrow> ('c, 'v) engine" where
  "run md5 cs s = fold (step md5) cs s"

fun is_set :: "('c, 'v) call \<Rightarrow> bool" where
  "is_set (Set now ws k v) = True"
| "is_set c = False"

text \<open>
  What a call may do for the value of key \<open>k\<close> to stay what it is: it does not set or
  delete \<open>k\<close>, it is not \<open>flushdb\<close>, and when it writes \<open>k\<close> to disk (eviction, flush)
  the write succeeds.
\<close>

fun keeps :: "'c key \<Rightarrow> ('c, 'v) call \<Rightarrow> bool" where
  "keeps k (Set now ws k' v) = (k' \<noteq> k \<and> ws k = WrOk)"
| "keeps k (Get now i k') = True"
| "keeps k (Delete i k') = (k' \<noteq> k)"
| "keeps k (Exists k') = True"
| "keeps k (Flush ws) = (ws k = WrOk)"
| "keeps k (FlushDb c) = False"

text \<open>A call that does not set \<open>k\<close>.\<close>

fun sets_not :: "'c key \<Rightarrow> ('c, 'v) call \<Rightarrow> bool" where
  "sets_not k (Set now ws k' v) = (k' \<noteq> k)"
| "sets_not k c = True"

text \<open>The keys a call names.\<close>

fun call_keys :: "('c, 'v) call \<Rightarrow> 'c key list" where
  "call_keys (Set now ws k v) = [k]"
| "call_keys (Get now i k) = [k]"
| "call_keys (Delete i k) = [k]"
| "call_keys (Exists k) = [k]"
| "call_keys (Flush ws) = []"
| "call_keys (FlushDb c) = []"

text \<open>
  The keys in play when the calls \<open>cs\<close> run from the state \<open>s\<close>: the keys of the cache
  and the keys the calls name. No other key is ever written to disk.
\<close>

definition keys_in_play :: "('c, 'v) engine \<Rightarrow> ('c, 'v) call list \<Rightarrow> 'c key list" where
  "keys_in_play s cs = map fst (cache s) @ concat (map call_keys cs)"

text \<open>
  None of the keys \<open>ks\<close>, but \<open>k\<close> itself, has the path of \<open>k\<close>: the hash does not
  collide with \<open>k\<close> on them.
\<close>

definition clash_free :: "'c digest \<Rightarrow> FDBConfig \<Rightarrow> 'c key \<Rightarrow> 'c key list \<Rightarrow> bool" where
  "clash_free md5 cfg k ks =
     list_all (\<lambda>k'. k' = k \<or> get_file_path md5 cfg k' \<noteq> get_file_path md5 cfg k) ks"

text \<open>The file of a key: what is at its path; nothing for a key without a path.\<close>

definition file_at ::
  "'c digest \<Rightarrow> FDBConfig \<Rightarrow> ('c, 'v) files \<Rightarrow> 'c key \<Rightarrow> ('c, 'v) disk_file option" where
  "file_at md5 cfg fs k = (case get_file_path md5 cfg k of Inl e \<Rightarrow> None | Inr p \<Rightarrow> fs p)"

subsection \<open>The eviction count of the specification\<close>

text \<open>
  The specification's words, to compare with \<open>to_remove\<close>: the lowest-ranked
  \<open>ceil(n / 10)\<close> entries, at minimum one.
\<close>

definition spec_evict_count :: "nat \<Rightarrow> nat" where
  "spec_evict_count n = max 1 (nat \<lceil>real n / 10\<rceil>)"

subsection \<open>A concrete engine\<close>

text \<open>
  Two hashes standing for MD5 in the runs below, one without collisions and one that
  looks at the first character only, and a configuration with the defaults of
  \<open>FDBConfig\<close> but for the size of the cache.
\<close>

definition example_md5 :: "char key \<Rightarrow> string option" where
  "example_md5 k = Some (''00'' @ k)"

definition first_char_md5 :: "char key \<Rightarrow> string option" where
  "first_char_md5 k = Some (''00'' @ take 1 k)"

definition example_config :: "int \<Rightarrow> FDBConfig" where
  "example_config n = \<lparr>data_dir = ''./fdb_data'', cache_size = n, file_extension = ''.fdb''\<rparr>"

definition example_engine :: "int \<Rightarrow> (char, int) engine" where
  "example_engine n = create_engine (example_config n) Map.empty"

definition example_files :: "(char, int) files" where
  "example_files =
     [''./fdb_data/00/00a.fdb'' \<mapsto> Record ''a'' (PyObj 1),
      ''./fdb_data/00/00b.fdb'' \<mapsto> Record ''b'' (PyObj 2)]"

definition nine_sets :: "(char, int) call list" where
  "nine_sets =
     [Set 1 (\<lambda>_. WrOk) ''k1'' (PyObj 1), Set 2 (\<lambda>_. WrOk) ''k2'' (PyObj 2),
      Set 3 (\<lambda>_. WrOk) ''k3'' (PyObj 3), Set 4 (\<lambda>_. WrOk) ''k4'' (PyObj 4),
      Set 5 (\<lambda>_. WrOk) ''k5'' (PyObj 5), Set 6 (\<lambda>_. WrOk) ''k6'' (PyObj 6),
      Set 7 (\<lambda>_. WrOk) ''k7'' (PyObj 7), Set 8 (\<lambda>_. WrOk) ''k8'' (PyObj 8),
      Set 9 (\<lambda>_. WrOk) ''k9'' (PyObj 9)]"

subsection \<open>Invariants\<close>

text \<open>The file of \<open>k\<close> holds the record of \<open>k\<close> with value \<open>v\<close>.\<close>

definition stored :: "'c digest \<Rightarrow> 'c key \<Rightarrow> 'v pyval \<Rightarrow> ('c, 'v) engine \<Rightarrow> bool" where
  "stored md5 k v s = (file_at md5 (config s) (files s) k = Some (Record k v))"

text \<open>
  The engine holds \<open>v\<close> for \<open>k\<close>: in the cache, and on disk as well unless the entry is
  dirty, or on disk only.
\<close>

definition holds :: "'c digest \<Rightarrow> 'c key \<Rightarrow> 'v pyval \<Rightarrow> ('c, 'v) engine \<Rightarrow> bool" where
  "holds md5 k v s =
     (case map_of (cache s) k of
        Some e \<Rightarrow> val e = v \<and> (dirty e \<or> stored md5 k v s)
      | None \<Rightarrow> stored md5 k v s)"

text \<open>The engine has nothing for \<open>k\<close>: no entry and no file.\<close>

definition absent :: "'c digest \<Rightarrow> 'c key \<Rightarrow> ('c, 'v) engine \<Rightarrow> bool" where
  "absent md5 k s =
     (map_of (cache s) k = None \<and> file_at md5 (config s) (files s) k = None)"

section \<open>Properties\<close>

subsection \<open>Evaluation\<close>

lemmas example_defs = example_md5_def first_char_md5_def example_config_def example_engine_def
  create_engine_def

lemmas engine_defs = set_key_def set_insert_def validate_key_def evict_lru_def sorted_items_def
  to_remove_def rank_def get_def load_from_disk_def save_to_disk_def get_file_path_def
  flush_def flush_writes_def flush_finish_def dirty_entries_def stop_def delete_def
  remove_from_disk_def exists_def flushdb_def clear_disk_def file_at_def Let_def

subsection \<open>Keys\<close>

lemma validate_key_valid: "k \<noteq> [] \<Longrightarrow> length k \<le> 256 \<Longrightarrow> validate_key k = Inr k"
  by (simp add: validate_key_def)

lemma validate_key_invalid:
  "k = [] \<or> 256 < length k \<Longrightarrow> validate_key k = Inl (ValueError ''Key must be 1-256 characters'')"
  by (auto simp add: validate_key_def)

text \<open>Loading, in terms of the file of the key.\<close>

lemma load_file_at:
  "load_from_disk md5 cfg i k fs =
     (case file_at md5 cfg fs k of
        None \<Rightarrow> PyNone
      | Some f \<Rightarrow>
          (case i of
             IoErr \<Rightarrow> PyNone
           | IoOk \<Rightarrow> (case f of Truncated \<Rightarrow> PyNone | Record k' v \<Rightarrow> v)))"
  by (simp add: load_from_disk_def file_at_def split: sum.splits)

text \<open>
  Claim C8. A key that is empty or longer than 256 characters makes \<open>set\<close>, \<open>get\<close>,
  \<open>delete\<close> and \<open>exists\<close> raise the validator's error, and the state they leave, the
  cache and the files of the data directory, is the state they found.
\<close>

theorem invalid_key_rejected:
  assumes "k = [] \<or> 256 < length k"
  shows "set_key md5 now ws k v s = (Inl (ValueError ''Key must be 1-256 characters''), s)
       \<and> get md5 now i k s = (Inl (ValueError ''Key must be 1-256 characters''), s)
       \<and> delete md5 i k s = (Inl (ValueError ''Key must be 1-256 characters''), s)
       \<and> exists md5 k s = (Inl (ValueError ''Key must be 1-256 characters''), s)"
  using assms by (simp add: set_key_def get_def delete_def exists_def validate_key_invalid)

theorem invalid_key_rejected_witness:
  "256 < length (replicate 257 CHR ''a'')
     \<and> set_key example_md5 1 (\<lambda>_. WrOk) (replicate 257 CHR ''a'') (PyObj 1) (example_engine 3)
         = (Inl (ValueError ''Key must be 1-256 characters''), example_engine 3)
     \<and> get example_md5 1 IoOk (replicate 257 CHR ''a'') (example_engine 3)
         = (Inl (ValueError ''Key must be 1-256 characters''), example_engine 3)
     \<and> delete example_md5 IoOk (replicate 257 CHR ''a'') (example_engine 3)
         = (Inl (ValueError ''Key must be 1-256 characters''), example_engine 3)
     \<and> exists example_md5 (replicate 257 CHR ''a'') (example_engine 3)
         = (Inl (ValueError ''Key must be 1-256 characters''), example_engine 3)"
  using invalid_key_rejected [of "replicate 257 CHR ''a''" example_md5 1 "\<lambda>_. WrOk" "PyObj 1"
      "example_engine 3" IoOk]
  by simp

subsection \<open>The dict and the eviction loop\<close>

lemma update_absent: "map_of al k = None \<Longrightarrow> AList.update k v al = al @ [(k, v)]"
  by (induction al) (auto split: if_splits)

lemma update_length_le: "length (AList.update k v al) \<le> Suc (length al)"
  by (induction al) auto

lemma delete_length_less:
  "k \<in> fst ` set al \<Longrightarrow> length (AList.delete k al) < length al"
  by (auto simp: AList.delete_eq intro!: length_filter_less)

lemma delete_filter_keys:
  "filter (\<lambda>p. fst p \<notin> A) (AList.delete k al) = filter (\<lambda>p. fst p \<notin> insert k A) al"
  by (induction al) (auto simp: AList.delete_eq)

lemma evict_loop_config [simp]: "config (evict_loop md5 ws xs s) = config s"
  by (induction md5 ws xs s rule: evict_loop.induct) (simp_all add: Let_def)

lemma evict_loop_running [simp]: "running (evict_loop md5 ws xs s) = running s"
  by (induction md5 ws xs s rule: evict_loop.induct) (simp_all add: Let_def)

text \<open>The loop deletes the keys it is given, and nothing else.\<close>

lemma evict_loop_cache:
  "cache (evict_loop md5 ws xs s) = filter (\<lambda>p. fst p \<notin> fst ` set xs) (cache s)"
proof (induction md5 ws xs s rule: evict_loop.induct)
  case (1 md5 ws s)
  then show ?case by simp
next
  case (2 md5 ws k entry rest s)
  then show ?case
    by (simp add: Let_def delete_filter_keys)
qed

lemma evict_loop_length_le: "length (cache (evict_loop md5 ws xs s)) \<le> length (cache s)"
  by (simp add: evict_loop_cache)

lemma evict_loop_cache_sub:
  "map_of (cache (evict_loop md5 ws xs s)) k = Some e \<Longrightarrow> map_of (cache s) k = Some e"
proof (induction md5 ws xs s rule: evict_loop.induct)
  case (1 md5 ws s)
  then show ?case by simp
next
  case (2 md5 ws k' entry rest s)
  from 2(2) have "map_of (AList.delete k' (cache s)) k = Some e"
    using 2(1) by (simp add: Let_def split: if_splits)
  then show ?case
    by (cases "k' = k") (simp_all add: AList.delete_conv')
qed

text \<open>An entry that \<open>set\<close> leaves in the cache under its key is the entry it made.\<close>

lemma set_key_cache_sub:
  assumes "k \<noteq> []" and "length k \<le> 256"
    and "map_of (cache (snd (set_key md5 now ws k v s))) k = Some e"
  shows "e = \<lparr>val = v, timestamp = now, dirty = True, access_count = 1\<rparr>"
proof -
  have "map_of (cache (set_insert now k v s)) k = Some e"
    using assms
    by (auto simp: set_key_def validate_key_valid Let_def evict_lru_def
             split: if_splits dest: evict_loop_cache_sub)
  then show ?thesis
    by (simp add: set_insert_def AList.update_conv')
qed

subsection \<open>Flush and the dirty flag\<close>

text \<open>
  Claim C1. The flag of a snapshotted entry should be cleared only if its write succeeded
  and the entry is the one of the snapshot. The engine clears it in two runs where it
  should not. In the first, \<open>set("a", 1)\<close> is followed by a \<open>flush\<close> whose write fails:
  \<open>flush\<close> returns 1, the entry is clean and there is no file. In the second,
  \<open>set("a", 2)\<close> runs while \<open>flush\<close> awaits the write of the value 1: the new entry is
  clean and the file holds 1.
\<close>

theorem flush_clears_dirty_unconditionally:
  "get_file_path example_md5 (example_config 3) ''a'' = Inr ''./fdb_data/00/00a.fdb''
   \<and> (let s1 = snd (set_key example_md5 1 (\<lambda>_. WrOk) ''a'' (PyObj 1) (example_engine 3));
        (n, s2) = flush example_md5 (\<lambda>_. WrFailEarly) s1
    in n = 1
       \<and> cache s2 = [(''a'', \<lparr>val = PyObj 1, timestamp = 1, dirty = False, access_count = 1\<rparr>)]
       \<and> files s2 ''./fdb_data/00/00a.fdb'' = None)
   \<and> (let s1 = snd (set_key example_md5 1 (\<lambda>_. WrOk) ''a'' (PyObj 1) (example_engine 3));
        snapshot = dirty_entries (cache s1);
        (results, s2) = flush_writes example_md5 (\<lambda>_. WrOk) snapshot s1;
        s3 = snd (set_key example_md5 2 (\<lambda>_. WrOk) ''a'' (PyObj 2) s2);
        (n, s4) = flush_finish snapshot results s3
    in n = 1
       \<and> cache s4 = [(''a'', \<lparr>val = PyObj 2, timestamp = 2, dirty = False, access_count = 1\<rparr>)]
       \<and> files s4 ''./fdb_data/00/00a.fdb'' = Some (Record ''a'' (PyObj 1)))"
  by (simp add: engine_defs example_defs)

subsection \<open>Eviction and failed writes\<close>

text \<open>
  Claim C2. An evictee whose write fails should stay in the cache. With \<open>cache_size = 1\<close>,
  \<open>set("a", 1)\<close> then \<open>set("b", 2)\<close> evicts \<open>a\<close>; when the write of \<open>a\<close> fails, \<open>a\<close>
  is deleted from the cache all the same, no file holds it, and \<open>get("a")\<close> finds nothing.
\<close>

theorem evict_drops_unwritten_entry:
  "get_file_path example_md5 (example_config 1) ''a'' = Inr ''./fdb_data/00/00a.fdb''
   \<and> (let s1 = snd (set_key example_md5 1 (\<lambda>_. WrOk) ''a'' (PyObj 1) (example_engine 1));
        s2 = snd (set_key example_md5 2 (\<lambda>_. WrFailEarly) ''b'' (PyObj 2) s1)
    in cache s1 = [(''a'', \<lparr>val = PyObj 1, timestamp = 1, dirty = True, access_count = 1\<rparr>)]
       \<and> cache s2 = [(''b'', \<lparr>val = PyObj 2, timestamp = 2, dirty = True, access_count = 1\<rparr>)]
       \<and> files s2 ''./fdb_data/00/00a.fdb'' = None
       \<and> fst (get example_md5 3 IoOk ''a'' s2) = Inr PyNone)"
  by (simp add: engine_defs example_defs)

subsection \<open>Stop\<close>

text \<open>
  Claim C3. After \<open>stop\<close>, every key that was set and not deleted should be on disk with
  its latest value. \<open>set("a", 1)\<close>, a \<open>flush\<close> whose write fails, then a \<open>stop\<close> whose
  disk works: the failed \<open>flush\<close> left the entry clean, so \<open>stop\<close> writes nothing, no
  entry is dirty, there is no file for \<open>a\<close>, and a fresh engine on the same files does
  not find it.
\<close>

theorem stop_leaves_value_unwritten:
  "get_file_path example_md5 (example_config 3) ''a'' = Inr ''./fdb_data/00/00a.fdb''
   \<and> (let s1 = snd (set_key example_md5 1 (\<lambda>_. WrOk) ''a'' (PyObj 1) (example_engine 3));
        s2 = snd (flush example_md5 (\<lambda>_. WrFailEarly) s1);
        s3 = stop example_md5 (\<lambda>_. WrOk) s2
    in cache s3 = [(''a'', \<lparr>val = PyObj 1, timestamp = 1, dirty = False, access_count = 1\<rparr>)]
       \<and> running s3 = False
       \<and> files s3 ''./fdb_data/00/00a.fdb'' = None
       \<and> fst (get example_md5 2 IoOk ''a'' (create_engine (config s3) (files s3))) = Inr PyNone)"
  by (simp add: engine_defs example_defs)

subsection \<open>Reading\<close>

lemma update_length_ge: "length al \<le> length (AList.update k v al)"
  by (induction al) auto

text \<open>
  Claim C9. A \<open>get\<close> that misses the cache and finds the key on disk appends a clean
  entry under the key and touches nothing else: the ceiling is not tested and nothing is
  evicted, whatever \<open>cache_size\<close> is. A cache that was at its ceiling is over it
  afterwards, and stays so until a \<open>set\<close> finds it over the ceiling and runs the eviction.
\<close>

theorem get_miss_warms_without_eviction:
  assumes "k \<noteq> []" and "length k \<le> 256"
    and "map_of (cache s) k = None"
    and "file_at md5 (config s) (files s) k = Some (Record k' (PyObj x))"
  shows "get md5 now IoOk k s =
           (Inr (PyObj x),
            s\<lparr>cache := cache s @ [(k, \<lparr>val = PyObj x, timestamp = now, dirty = False, access_count = 1\<rparr>)]\<rparr>)
       \<and> length (cache (snd (get md5 now IoOk k s))) = length (cache s) + 1
       \<and> (cache_size (config s) \<le> int (length (cache s)) \<longrightarrow>
           cache_size (config s) < int (length (cache (snd (get md5 now IoOk k s)))))
       \<and> (cache_size (config s) \<le> int (length (cache s)) \<and> k2 \<noteq> [] \<and> length k2 \<le> 256 \<longrightarrow>
           set_key md5 now2 ws k2 v2 (snd (get md5 now IoOk k s)) =
             (Inr True, evict_lru md5 ws (set_insert now2 k2 v2 (snd (get md5 now IoOk k s)))))"
proof -
  let ?s' = "s\<lparr>cache := cache s @ [(k, \<lparr>val = PyObj x, timestamp = now, dirty = False, access_count = 1\<rparr>)]\<rparr>"
  have g: "get md5 now IoOk k s = (Inr (PyObj x), ?s')"
    using assms by (simp add: get_def validate_key_valid load_file_at update_absent Let_def)
  have "length (cache ?s') \<le> length (cache (set_insert now2 k2 v2 ?s'))"
    by (simp add: set_insert_def update_length_ge del: length_append)
  then have "cache_size (config s) \<le> int (length (cache s)) \<Longrightarrow>
      cache_size (config (set_insert now2 k2 v2 ?s')) < int (length (cache (set_insert now2 k2 v2 ?s')))"
    by (simp add: set_insert_def)
  then show ?thesis
    by (simp add: g set_key_def validate_key_valid Let_def)
qed

theorem get_miss_warms_without_eviction_witness:
  "(let s = snd (get example_md5 1 IoOk ''a'' (create_engine (example_config 1) example_files)) in
      cache s = [(''a'', \<lparr>val = PyObj 1, timestamp = 1, dirty = False, access_count = 1\<rparr>)]
      \<and> cache_size (config s) = 1
      \<and> file_at example_md5 (config s) (files s) ''b'' = Some (Record ''b'' (PyObj 2))
      \<and> cache (snd (get example_md5 2 IoOk ''b'' s)) =
           [(''a'', \<lparr>val = PyObj 1, timestamp = 1, dirty = False, access_count = 1\<rparr>),
            (''b'', \<lparr>val = PyObj 2, timestamp = 2, dirty = False, access_count = 1\<rparr>)]
      \<and> cache_size (config s) < int (length (cache (snd (get example_md5 2 IoOk ''b'' s))))
      \<and> set_key example_md5 3 (\<lambda>_. WrOk) ''c'' (PyObj 3) (snd (get example_md5 2 IoOk ''b'' s)) =
           (Inr True, evict_lru example_md5 (\<lambda>_. WrOk)
                        (set_insert 3 ''c'' (PyObj 3) (snd (get example_md5 2 IoOk ''b'' s)))))"
proof -
  define s where "s = snd (get example_md5 1 IoOk ''a'' (create_engine (example_config 1) example_files))"
  have c: "cache s = [(''a'', \<lparr>val = PyObj 1, timestamp = 1, dirty = False, access_count = 1\<rparr>)]"
    and z: "cache_size (config s) = 1"
    and f: "file_at example_md5 (config s) (files s) ''b'' = Some (Record ''b'' (PyObj 2))"
    by (simp_all add: s_def engine_defs example_defs example_files_def)
  have m: "map_of (cache s) ''b'' = None"
    by (simp add: c)
  have k1: "''b'' \<noteq> []" and k2: "length ''b'' \<le> 256"
    by simp_all
  have th: "get example_md5 2 IoOk ''b'' s =
           (Inr (PyObj 2),
            s\<lparr>cache := cache s @ [(''b'', \<lparr>val = PyObj 2, timestamp = 2, dirty = False, access_count = 1\<rparr>)]\<rparr>)
       \<and> length (cache (snd (get example_md5 2 IoOk ''b'' s))) = length (cache s) + 1
       \<and> (cache_size (config s) \<le> int (length (cache s)) \<longrightarrow>
           cache_size (config s) < int (length (cache (snd (get example_md5 2 IoOk ''b'' s)))))
       \<and> (cache_size (config s) \<le> int (length (cache s)) \<and> ''c'' \<noteq> [] \<and> length ''c'' \<le> 256 \<longrightarrow>
           set_key example_md5 3 (\<lambda>_. WrOk) ''c'' (PyObj 3) (snd (get example_md5 2 IoOk ''b'' s)) =
             (Inr True, evict_lru example_md5 (\<lambda>_. WrOk)
                          (set_insert 3 ''c'' (PyObj 3) (snd (get example_md5 2 IoOk ''b'' s)))))"
    by (rule get_miss_warms_without_eviction [OF k1 k2 m f])
  have k3: "''c'' \<noteq> [] \<and> length ''c'' \<le> 256"
    by simp
  have le: "cache_size (config s) \<le> int (length (cache s))"
    by (simp add: c z)
  from th have g: "cache (snd (get example_md5 2 IoOk ''b'' s)) =
           [(''a'', \<lparr>val = PyObj 1, timestamp = 1, dirty = False, access_count = 1\<rparr>),
            (''b'', \<lparr>val = PyObj 2, timestamp = 2, dirty = False, access_count = 1\<rparr>)]"
    by (simp add: c)
  from th le have lt: "cache_size (config s) < int (length (cache (snd (get example_md5 2 IoOk ''b'' s))))"
    by blast
  from th le k3 have st: "set_key example_md5 3 (\<lambda>_. WrOk) ''c'' (PyObj 3) (snd (get example_md5 2 IoOk ''b'' s)) =
             (Inr True, evict_lru example_md5 (\<lambda>_. WrOk)
                          (set_insert 3 ''c'' (PyObj 3) (snd (get example_md5 2 IoOk ''b'' s))))"
    by blast
  show ?thesis
    unfolding s_def [symmetric] Let_def
    by (intro conjI c z f g lt st)
qed

text \<open>
  Claim C10. A stored \<open>None\<close> cannot be told from no value. After \<open>set(k, None)\<close>,
  \<open>get(k)\<close> returns \<open>None\<close> when the entry is still cached; when the key is not cached
  and its file holds the record with value \<open>None\<close>, \<open>get(k)\<close> returns \<open>None\<close> and does
  not even warm the cache; and that is what \<open>get(k)\<close> returns for a key with no entry and
  no file.
\<close>

theorem none_is_not_found:
  assumes "k \<noteq> []" and "length k \<le> 256"
  shows "(map_of (cache (snd (set_key md5 now ws k PyNone s))) k \<noteq> None \<longrightarrow>
            fst (get md5 now' i k (snd (set_key md5 now ws k PyNone s))) = Inr PyNone)
       \<and> (map_of (cache s) k = None \<and> file_at md5 (config s) (files s) k = Some (Record k PyNone) \<longrightarrow>
            get md5 now' i k s = (Inr PyNone, s))
       \<and> (map_of (cache s) k = None \<and> file_at md5 (config s) (files s) k = None \<longrightarrow>
            get md5 now' i k s = (Inr PyNone, s))"
proof (intro conjI impI)
  assume "map_of (cache (snd (set_key md5 now ws k PyNone s))) k \<noteq> None"
  then obtain e where e: "map_of (cache (snd (set_key md5 now ws k PyNone s))) k = Some e"
    by auto
  with assms have "val e = PyNone"
    by (auto dest: set_key_cache_sub)
  with e assms show "fst (get md5 now' i k (snd (set_key md5 now ws k PyNone s))) = Inr PyNone"
    by (simp add: get_def validate_key_valid)
next
  assume "map_of (cache s) k = None \<and> file_at md5 (config s) (files s) k = Some (Record k PyNone)"
  with assms show "get md5 now' i k s = (Inr PyNone, s)"
    by (cases i) (simp_all add: get_def validate_key_valid load_file_at Let_def)
next
  assume "map_of (cache s) k = None \<and> file_at md5 (config s) (files s) k = None"
  with assms show "get md5 now' i k s = (Inr PyNone, s)"
    by (simp add: get_def validate_key_valid load_file_at Let_def)
qed

theorem none_is_not_found_witness:
  "(let hit = snd (set_key example_md5 1 (\<lambda>_. WrOk) ''a'' PyNone (example_engine 3));
        evicted = snd (set_key example_md5 1 (\<lambda>_. WrOk) ''a'' PyNone (example_engine 0))
    in map_of (cache hit) ''a'' = Some \<lparr>val = PyNone, timestamp = 1, dirty = True, access_count = 1\<rparr>
       \<and> fst (get example_md5 2 IoOk ''a'' hit) = Inr PyNone
       \<and> cache evicted = []
       \<and> file_at example_md5 (config evicted) (files evicted) ''a'' = Some (Record ''a'' PyNone)
       \<and> get example_md5 2 IoOk ''a'' evicted = (Inr PyNone, evicted)
       \<and> get example_md5 2 IoOk ''a'' (example_engine 3) = (Inr PyNone, example_engine 3))"
proof -
  define hit where "hit = snd (set_key example_md5 1 (\<lambda>_. WrOk) ''a'' PyNone (example_engine 3))"
  define evicted where "evicted = snd (set_key example_md5 1 (\<lambda>_. WrOk) ''a'' PyNone (example_engine 0))"
  have h: "map_of (cache hit) ''a'' = Some \<lparr>val = PyNone, timestamp = 1, dirty = True, access_count = 1\<rparr>"
    by (simp add: hit_def engine_defs example_defs)
  have e: "cache evicted = []"
    "file_at example_md5 (config evicted) (files evicted) ''a'' = Some (Record ''a'' PyNone)"
    by (simp_all add: evicted_def engine_defs example_defs)
  have n: "map_of (cache (example_engine 3)) ''a'' = None"
    "file_at example_md5 (config (example_engine 3)) (files (example_engine 3)) ''a'' = None"
    by (simp_all add: example_defs file_at_def get_file_path_def)
  have "fst (get example_md5 2 IoOk ''a'' hit) = Inr PyNone"
    using none_is_not_found [of "''a''" example_md5 1 "\<lambda>_. WrOk" "example_engine 3" 2 IoOk] h
    by (simp add: hit_def)
  moreover have "get example_md5 2 IoOk ''a'' evicted = (Inr PyNone, evicted)"
    using none_is_not_found [of "''a''" example_md5 1 "\<lambda>_. WrOk" evicted 2 IoOk] e
    by simp
  moreover have "get example_md5 2 IoOk ''a'' (example_engine 3) = (Inr PyNone, example_engine 3)"
    using none_is_not_found [of "''a''" example_md5 1 "\<lambda>_. WrOk" "example_engine 3" 2 IoOk] n
    by simp
  ultimately show ?thesis
    using h e unfolding hit_def [symmetric] evicted_def [symmetric] Let_def by simp
qed

subsection \<open>The eviction pass\<close>

text \<open>
  The count of claim C4 against the code: with \<open>cache_size = 9\<close>, the tenth \<open>set\<close> of a
  new key makes \<open>_evict_lru\<close> run on ten entries. It removes two, \<open>k1\<close> and \<open>k2\<close>;
  \<open>ceil(10 / 10)\<close> is one.
\<close>

theorem evict_count_counterexample:
  "(let s9 = run example_md5 nine_sets (example_engine 9);
        s10 = set_insert 10 ''k10'' (PyObj 10) s9;
        s = snd (set_key example_md5 10 (\<lambda>_. WrOk) ''k10'' (PyObj 10) s9)
    in length (cache s10) = 10
       \<and> map fst (cache s) = [''k3'', ''k4'', ''k5'', ''k6'', ''k7'', ''k8'', ''k9'', ''k10'']
       \<and> length (cache s10) - length (cache s) = 2
       \<and> spec_evict_count (length (cache s10)) = 1)"
  by (simp add: run_def nine_sets_def engine_defs example_defs spec_evict_count_def)

lemma sorted_items_props:
  "set (sorted_items c) = set c" "length (sorted_items c) = length c"
  "sorted (map rank (sorted_items c))" "distinct (sorted_items c) = distinct c"
  by (simp_all add: sorted_items_def)

lemma sorted_take_drop:
  assumes "sorted (map f xs)" and "x \<in> set (take n xs)" and "y \<in> set (drop n xs)"
  shows "f x \<le> f y"
proof -
  have "sorted (map f (take n xs) @ map f (drop n xs))"
    using assms(1) by (simp flip: map_append)
  with assms(2,3) show ?thesis
    by (auto simp: sorted_append)
qed

lemma distinct_keys_member:
  assumes "distinct (map fst c)" and "p \<in> set c" and "q \<in> set c" and "fst p = fst q"
  shows "p = q"
  using assms by (auto simp: distinct_map dest: inj_onD)

lemma filter_keys_items:
  assumes "distinct (map fst c)" and "set T \<subseteq> set c"
  shows "filter (\<lambda>p. fst p \<notin> fst ` set T) c = filter (\<lambda>p. p \<notin> set T) c"
proof (rule filter_cong [OF refl])
  fix p assume p: "p \<in> set c"
  show "(fst p \<notin> fst ` set T) = (p \<notin> set T)"
  proof
    assume "fst p \<notin> fst ` set T" then show "p \<notin> set T" by auto
  next
    assume n: "p \<notin> set T"
    show "fst p \<notin> fst ` set T"
    proof
      assume "fst p \<in> fst ` set T"
      then obtain q where q: "q \<in> set T" "fst p = fst q" by auto
      with assms p have "p = q" by (auto intro: distinct_keys_member)
      with q n show False by simp
    qed
  qed
qed

lemma length_filter_diff:
  assumes "distinct c" and "distinct T" and "set T \<subseteq> set c"
  shows "length (filter (\<lambda>p. p \<notin> set T) c) = length c - length T"
proof -
  have "set (filter (\<lambda>p. p \<notin> set T) c) = set c - set T" by auto
  moreover have "distinct (filter (\<lambda>p. p \<notin> set T) c)" using assms(1) by simp
  ultimately have "length (filter (\<lambda>p. p \<notin> set T) c) = card (set c - set T)"
    by (metis distinct_card)
  also have "\<dots> = card (set c) - card (set T)"
    using assms(3) by (simp add: card_Diff_subset)
  finally show ?thesis
    using assms(1,2) by (simp add: distinct_card)
qed

text \<open>
  Claim C4, with the count of the code. A pass over \<open>n\<close> entries, more than
  \<open>cache_size\<close>, sorts them by \<open>(access_count, timestamp)\<close>, ascending and stable, and
  deletes the first \<open>n div 10 + 1\<close> of the sorted list (all of them when there are fewer):
  the entries that go are ranked at most as high as the entries that stay, which keep their
  order in the dict.
\<close>

theorem evict_lru_removes_lowest:
  assumes "distinct (map fst (cache s))"
    and "cache_size (config s) < int (length (cache s))"
  shows "cache (evict_lru md5 ws s) =
           filter (\<lambda>p. p \<notin> set (take (length (cache s) div 10 + 1) (sort_key rank (cache s)))) (cache s)
       \<and> length (cache s) - length (cache (evict_lru md5 ws s)) =
           min (length (cache s)) (length (cache s) div 10 + 1)
       \<and> sorted (map rank (sort_key rank (cache s)))
       \<and> (\<forall>x \<in> set (cache s) - set (cache (evict_lru md5 ws s)).
            \<forall>y \<in> set (cache (evict_lru md5 ws s)). rank x \<le> rank y)"
proof -
  let ?c = "cache s"
  let ?r = "length ?c div 10 + 1"
  let ?T = "take ?r (sort_key rank ?c)"
  have d: "distinct ?c" using assms(1) by (simp add: distinct_map)
  have sub: "set ?T \<subseteq> set ?c"
    using set_take_subset [of ?r "sort_key rank ?c"] by simp
  have ev: "evict_lru md5 ws s = evict_loop md5 ws ?T s"
    using assms(2) by (simp add: evict_lru_def to_remove_def sorted_items_def)
  have c': "cache (evict_lru md5 ws s) = filter (\<lambda>p. p \<notin> set ?T) ?c"
    by (simp only: ev evict_loop_cache filter_keys_items [OF assms(1) sub])
  have len: "length (cache (evict_lru md5 ws s)) = length ?c - length ?T"
    unfolding c' by (rule length_filter_diff [OF d _ sub]) (simp add: d)
  have lT: "length ?T = min (length ?c) ?r" by simp
  have cnt: "length ?c - length (cache (evict_lru md5 ws s)) = min (length ?c) ?r"
    unfolding len lT by (simp add: min_def)
  have ord: "\<forall>x \<in> set ?c - set (cache (evict_lru md5 ws s)).
            \<forall>y \<in> set (cache (evict_lru md5 ws s)). rank x \<le> rank y"
  proof (intro ballI)
    fix x y
    assume x: "x \<in> set ?c - set (cache (evict_lru md5 ws s))"
      and y: "y \<in> set (cache (evict_lru md5 ws s))"
    from x have xT: "x \<in> set ?T" by (auto simp: c')
    from y have "y \<in> set (sort_key rank ?c)" "y \<notin> set ?T" by (auto simp: c')
    then have yD: "y \<in> set (drop ?r (sort_key rank ?c))"
      by (metis Un_iff append_take_drop_id set_append)
    show "rank x \<le> rank y"
      by (rule sorted_take_drop [OF _ xT yD]) simp
  qed
  show ?thesis
    using c' cnt ord by simp
qed

theorem evict_lru_removes_lowest_witness:
  "(let s10 = set_insert 10 ''k10'' (PyObj 10) (run example_md5 nine_sets (example_engine 9)) in
      distinct (map fst (cache s10))
      \<and> cache_size (config s10) < int (length (cache s10))
      \<and> length (cache s10) = 10
      \<and> length (cache s10) - length (cache (evict_lru example_md5 (\<lambda>_. WrOk) s10)) = 2
      \<and> map fst (cache (evict_lru example_md5 (\<lambda>_. WrOk) s10)) =
           [''k3'', ''k4'', ''k5'', ''k6'', ''k7'', ''k8'', ''k9'', ''k10''])"
proof -
  define s10 where "s10 = set_insert 10 ''k10'' (PyObj 10) (run example_md5 nine_sets (example_engine 9))"
  have c: "cache s10 =
      [(''k1'', \<lparr>val = PyObj 1, timestamp = 1, dirty = True, access_count = 1\<rparr>),
       (''k2'', \<lparr>val = PyObj 2, timestamp = 2, dirty = True, access_count = 1\<rparr>),
       (''k3'', \<lparr>val = PyObj 3, timestamp = 3, dirty = True, access_count = 1\<rparr>),
       (''k4'', \<lparr>val = PyObj 4, timestamp = 4, dirty = True, access_count = 1\<rparr>),
       (''k5'', \<lparr>val = PyObj 5, timestamp = 5, dirty = True, access_count = 1\<rparr>),
       (''k6'', \<lparr>val = PyObj 6, timestamp = 6, dirty = True, access_count = 1\<rparr>),
       (''k7'', \<lparr>val = PyObj 7, timestamp = 7, dirty = True, access_count = 1\<rparr>),
       (''k8'', \<lparr>val = PyObj 8, timestamp = 8, dirty = True, access_count = 1\<rparr>),
       (''k9'', \<lparr>val = PyObj 9, timestamp = 9, dirty = True, access_count = 1\<rparr>),
       (''k10'', \<lparr>val = PyObj 10, timestamp = 10, dirty = True, access_count = 1\<rparr>)]"
    and z: "cache_size (config s10) = 9"
    by (simp_all add: s10_def run_def nine_sets_def engine_defs example_defs)
  have d: "distinct (map fst (cache s10))" by (simp add: c)
  have lt: "cache_size (config s10) < int (length (cache s10))" by (simp add: c z)
  have n: "length (cache s10) = 10" by (simp add: c)
  note th = evict_lru_removes_lowest [OF d lt, of example_md5 "\<lambda>_. WrOk"]
  from th have "length (cache s10) - length (cache (evict_lru example_md5 (\<lambda>_. WrOk) s10)) =
           min (length (cache s10)) (length (cache s10) div 10 + 1)"
    by blast
  then have two: "length (cache s10) - length (cache (evict_lru example_md5 (\<lambda>_. WrOk) s10)) = 2"
    by (simp add: n)
  from th have "cache (evict_lru example_md5 (\<lambda>_. WrOk) s10) =
           filter (\<lambda>p. p \<notin> set (take (length (cache s10) div 10 + 1) (sort_key rank (cache s10)))) (cache s10)"
    by blast
  then have keys: "map fst (cache (evict_lru example_md5 (\<lambda>_. WrOk) s10)) =
           [''k3'', ''k4'', ''k5'', ''k6'', ''k7'', ''k8'', ''k9'', ''k10'']"
    by (simp add: c rank_def)
  show ?thesis
    unfolding s10_def [symmetric] Let_def
    by (intro conjI d lt n two keys)
qed

text \<open>
  The timestamp of the ranking is the time the entry was made: a \<open>get\<close> that hits counts
  the access and leaves the timestamp as it is.
\<close>

lemma get_hit_keeps_timestamp:
  assumes "k \<noteq> []" and "length k \<le> 256" and "map_of (cache s) k = Some e"
  shows "map_of (cache (snd (get md5 now i k s))) k = Some (e\<lparr>access_count := access_count e + 1\<rparr>)"
  using assms by (simp add: get_def validate_key_valid AList.update_conv')

subsection \<open>The size of the cache\<close>

lemma evict_loop_length_less:
  assumes "xs \<noteq> []" and "fst (hd xs) \<in> fst ` set (cache s)"
  shows "length (cache (evict_loop md5 ws xs s)) < length (cache s)"
proof -
  from assms(2) obtain p where p: "p \<in> set (cache s)" "fst p = fst (hd xs)"
    by auto
  have "fst p \<in> fst ` set xs"
    using assms(1) p(2) by simp
  with p(1) show ?thesis
    unfolding evict_loop_cache by (intro length_filter_less [of p]) simp_all
qed

lemma evict_lru_config [simp]: "config (evict_lru md5 ws s) = config s"
  by (simp add: evict_lru_def)

lemma set_insert_config [simp]: "config (set_insert now k v s) = config s"
  by (simp add: set_insert_def)

lemma set_insert_nonempty [simp]: "cache (set_insert now k v s) \<noteq> []"
  by (simp add: set_insert_def)

lemma set_insert_length: "length (cache (set_insert now k v s)) \<le> Suc (length (cache s))"
  by (simp add: set_insert_def update_length_le)

lemma evict_lru_length_less:
  assumes "cache s \<noteq> []" and "cache_size (config s) < int (length (cache s))"
  shows "length (cache (evict_lru md5 ws s)) < length (cache s)"
proof -
  let ?T = "take (to_remove (cache s)) (sorted_items (cache s))"
  have "set (sorted_items (cache s)) = set (cache s)"
    by (simp add: sorted_items_def)
  with assms(1) have ne: "sorted_items (cache s) \<noteq> []"
    by (metis set_empty)
  have "0 < to_remove (cache s)"
    by (simp add: to_remove_def)
  with ne have T: "?T \<noteq> []"
    by (cases "sorted_items (cache s)"; cases "to_remove (cache s)") simp_all
  then have "hd ?T \<in> set ?T"
    by (rule hd_in_set)
  then have "hd ?T \<in> set (sorted_items (cache s))"
    by (rule in_set_takeD)
  then have "fst (hd ?T) \<in> fst ` set (cache s)"
    by (simp add: sorted_items_def)
  from evict_loop_length_less [OF T this] assms(2) show ?thesis
    by (simp add: evict_lru_def)
qed

lemma set_key_config [simp]: "config (snd (set_key md5 now ws k v s)) = config s"
  by (cases "validate_key k") (simp_all add: set_key_def Let_def)

lemma set_key_bound:
  assumes "int (length (cache s)) \<le> cache_size (config s)"
  shows "int (length (cache (snd (set_key md5 now ws k v s)))) \<le> cache_size (config s)"
proof (cases "validate_key k")
  case (Inl e)
  with assms show ?thesis by (simp add: set_key_def)
next
  case (Inr k')
  let ?s1 = "set_insert now k' v s"
  show ?thesis
  proof (cases "cache_size (config s) < int (length (cache ?s1))")
    case True
    then have "length (cache (evict_lru md5 ws ?s1)) < length (cache ?s1)"
      by (intro evict_lru_length_less) simp_all
    moreover have "length (cache ?s1) \<le> Suc (length (cache s))"
      by (rule set_insert_length)
    ultimately have "int (length (cache (evict_lru md5 ws ?s1))) \<le> cache_size (config s)"
      using assms by linarith
    with True Inr show ?thesis by (simp add: set_key_def Let_def)
  next
    case False
    with Inr show ?thesis by (simp add: set_key_def Let_def)
  qed
qed

lemma run_Nil [simp]: "run md5 [] s = s"
  by (simp add: run_def)

lemma run_Cons [simp]: "run md5 (c # cs) s = run md5 cs (step md5 c s)"
  by (simp add: run_def)

lemma run_append: "run md5 (cs @ ds) s = run md5 ds (run md5 cs s)"
  by (simp add: run_def)

lemma run_sets_bound:
  "list_all is_set cs \<Longrightarrow> int (length (cache s)) \<le> cache_size (config s) \<Longrightarrow>
     int (length (cache (run md5 cs s))) \<le> cache_size (config s) \<and> config (run md5 cs s) = config s"
proof (induction cs arbitrary: s)
  case Nil
  then show ?case by simp
next
  case (Cons c cs)
  from Cons.prems(1) obtain now ws k v where c: "c = Set now ws k v"
    by (cases c) auto
  have "int (length (cache (step md5 c s))) \<le> cache_size (config (step md5 c s))"
    using Cons.prems(2) by (simp add: c set_key_bound)
  with Cons.IH [of "step md5 c s"] Cons.prems(1) show ?case
    by (simp add: c)
qed

text \<open>
  Claim C5. On an engine that has run any sequence of \<open>set\<close> calls since it was created
  (with \<open>cache_size\<close> not negative), the cache holds at most \<open>cache_size\<close> entries.
  During the next \<open>set\<close> it holds at most \<open>cache_size + 1\<close>: after the insertion, and
  after any number \<open>n\<close> of rounds of the eviction loop. If the insertion leaves more than
  \<open>cache_size\<close> entries, \<open>set\<close> runs \<open>_evict_lru\<close> before it returns, and when it
  returns the cache holds at most \<open>cache_size\<close> entries again.
\<close>

theorem set_keeps_cache_bound:
  assumes "0 \<le> cache_size cfg" and "list_all is_set cs"
  shows "(let s = run md5 cs (create_engine cfg fs); s1 = set_insert now k v s in
      int (length (cache s)) \<le> cache_size cfg
    \<and> int (length (cache s1)) \<le> cache_size cfg + 1
    \<and> (\<forall>n. int (length (cache (evict_loop md5 ws (take n (sorted_items (cache s1))) s1)))
            \<le> cache_size cfg + 1)
    \<and> (k \<noteq> [] \<and> length k \<le> 256 \<and> cache_size cfg < int (length (cache s1)) \<longrightarrow>
          set_key md5 now ws k v s = (Inr True, evict_lru md5 ws s1))
    \<and> int (length (cache (snd (set_key md5 now ws k v s)))) \<le> cache_size cfg)"
proof -
  define s where "s = run md5 cs (create_engine cfg fs)"
  define s1 where "s1 = set_insert now k v s"
  have "int (length (cache (create_engine cfg fs))) \<le> cache_size (config (create_engine cfg fs))"
    using assms(1) by (simp add: create_engine_def)
  from run_sets_bound [OF assms(2) this, of md5]
  have b: "int (length (cache s)) \<le> cache_size cfg" and cf: "config s = cfg"
    by (simp_all add: s_def create_engine_def)
  have b1: "int (length (cache s1)) \<le> cache_size cfg + 1"
    using set_insert_length [of now k v s] b by (simp add: s1_def)
  have ev: "int (length (cache (evict_loop md5 ws (take n (sorted_items (cache s1))) s1)))
            \<le> cache_size cfg + 1" for n
    using evict_loop_length_le [of md5 ws "take n (sorted_items (cache s1))" s1] b1 by linarith
  have tr: "k \<noteq> [] \<and> length k \<le> 256 \<and> cache_size cfg < int (length (cache s1)) \<longrightarrow>
          set_key md5 now ws k v s = (Inr True, evict_lru md5 ws s1)"
    by (simp add: set_key_def validate_key_valid Let_def s1_def cf)
  have af: "int (length (cache (snd (set_key md5 now ws k v s)))) \<le> cache_size cfg"
    using set_key_bound [of s md5 now ws k v] b cf by simp
  show ?thesis
    unfolding Let_def s_def [symmetric] s1_def [symmetric]
    using b b1 ev tr af by blast
qed

theorem set_keeps_cache_bound_witness:
  "0 \<le> cache_size (example_config 1)
   \<and> list_all is_set [Set 1 (\<lambda>_. WrOk) ''a'' (PyObj (1::int)), Set 2 (\<lambda>_. WrOk) ''b'' (PyObj 2)]
   \<and> (let s = run example_md5 [Set 1 (\<lambda>_. WrOk) ''a'' (PyObj 1), Set 2 (\<lambda>_. WrOk) ''b'' (PyObj 2)]
                (create_engine (example_config 1) (Map.empty :: (char, int) files));
            s1 = set_insert 3 ''c'' (PyObj 3) s in
        map fst (cache s) = [''b'']
      \<and> int (length (cache s)) \<le> cache_size (example_config 1)
      \<and> map fst (cache s1) = [''b'', ''c'']
      \<and> int (length (cache s1)) \<le> cache_size (example_config 1) + 1
      \<and> set_key example_md5 3 (\<lambda>_. WrOk) ''c'' (PyObj 3) s = (Inr True, evict_lru example_md5 (\<lambda>_. WrOk) s1)
      \<and> int (length (cache (snd (set_key example_md5 3 (\<lambda>_. WrOk) ''c'' (PyObj 3) s))))
            \<le> cache_size (example_config 1))"
proof -
  let ?cs = "[Set 1 (\<lambda>_. WrOk) ''a'' (PyObj 1), Set 2 (\<lambda>_. WrOk) ''b'' (PyObj (2::int))]"
  define s where "s = run example_md5 ?cs (create_engine (example_config 1) (Map.empty :: (char, int) files))"
  define s1 where "s1 = set_insert 3 ''c'' (PyObj 3) s"
  have h1: "0 \<le> cache_size (example_config 1)"
    by (simp add: example_config_def)
  have h2: "list_all is_set ?cs"
    by simp
  have ks: "map fst (cache s) = [''b'']"
    by (simp add: s_def engine_defs example_defs)
  have ks1: "map fst (cache s1) = [''b'', ''c'']"
    by (simp add: s1_def s_def engine_defs example_defs)
  have k: "''c'' \<noteq> [] \<and> length ''c'' \<le> 256"
    by simp
  have over: "cache_size (example_config 1) < int (length (cache s1))"
    using arg_cong [OF ks1, of length] by (simp add: example_config_def)
  note th = set_keeps_cache_bound [OF h1 h2, of example_md5 Map.empty 3 "''c''" "PyObj 3" "\<lambda>_. WrOk",
      unfolded Let_def, folded s_def, folded s1_def]
  from th have b: "int (length (cache s)) \<le> cache_size (example_config 1)"
    by blast
  from th have b1: "int (length (cache s1)) \<le> cache_size (example_config 1) + 1"
    by blast
  from th k over have tr: "set_key example_md5 3 (\<lambda>_. WrOk) ''c'' (PyObj 3) s =
      (Inr True, evict_lru example_md5 (\<lambda>_. WrOk) s1)"
    by blast
  from th have af: "int (length (cache (snd (set_key example_md5 3 (\<lambda>_. WrOk) ''c'' (PyObj 3) s))))
      \<le> cache_size (example_config 1)"
    by blast
  show ?thesis
    unfolding Let_def s_def [symmetric] s1_def [symmetric]
    by (intro conjI h1 h2 ks b ks1 b1 tr af)
qed

subsection \<open>What a call leaves alone\<close>

lemma clash_free_iff:
  "clash_free md5 cfg k ks \<longleftrightarrow>
     (\<forall>k' \<in> set ks. k' = k \<or> get_file_path md5 cfg k' \<noteq> get_file_path md5 cfg k)"
  by (simp add: clash_free_def list_all_iff)

lemma clash_free_mono:
  "clash_free md5 cfg k ks \<Longrightarrow> set ks' \<subseteq> set ks \<Longrightarrow> clash_free md5 cfg k ks'"
  by (auto simp: clash_free_iff)

lemma clash_free_sub:
  "clash_free md5 cfg k (map fst c) \<Longrightarrow> set xs \<subseteq> set c \<Longrightarrow> clash_free md5 cfg k (map fst xs)"
  by (auto simp: clash_free_iff)

lemma clash_freeD:
  "clash_free md5 cfg k ks \<Longrightarrow> k' \<in> set ks \<Longrightarrow> k' \<noteq> k \<Longrightarrow>
     get_file_path md5 cfg k' \<noteq> get_file_path md5 cfg k"
  by (auto simp: clash_free_iff)

lemma path_defined: "md5 k \<noteq> None \<Longrightarrow> \<exists>p. get_file_path md5 cfg k = Inr p"
  by (auto simp: get_file_path_def Let_def)

lemma path_undefined: "md5 k = None \<Longrightarrow> get_file_path md5 cfg k = Inl UnicodeEncodeError"
  by (simp add: get_file_path_def)

lemma save_other:
  "get_file_path md5 cfg k' \<noteq> get_file_path md5 cfg k \<Longrightarrow>
     file_at md5 cfg (fst (save_to_disk md5 cfg w k' v' fs)) k = file_at md5 cfg fs k"
  by (cases w) (auto simp: save_to_disk_def file_at_def split: sum.splits)

lemma save_same:
  "md5 k \<noteq> None \<Longrightarrow> file_at md5 cfg (fst (save_to_disk md5 cfg WrOk k v fs)) k = Some (Record k v)"
  using path_defined [of md5 k cfg] by (auto simp: save_to_disk_def file_at_def)

lemma run_saves_length [simp]: "length (snd (run_saves md5 cfg ws xs fs)) = length xs"
  by (induction xs arbitrary: fs) (auto simp: split_def Let_def)

lemma run_saves_other:
  "clash_free md5 cfg k (map fst xs) \<Longrightarrow> k \<notin> fst ` set xs \<Longrightarrow>
     file_at md5 cfg (fst (run_saves md5 cfg ws xs fs)) k = file_at md5 cfg fs k"
proof (induction xs arbitrary: fs)
  case Nil
  then show ?case by simp
next
  case (Cons x xs)
  obtain k' e where x: "x = (k', e)" by (cases x)
  from Cons.prems have p: "get_file_path md5 cfg k' \<noteq> get_file_path md5 cfg k"
    by (auto simp: x clash_free_iff)
  from Cons.prems have "clash_free md5 cfg k (map fst xs)" "k \<notin> fst ` set xs"
    by (auto simp: clash_free_iff)
  with Cons.IH [of "fst (save_to_disk md5 cfg (ws k') k' (val e) fs)"] p show ?case
    by (simp add: x split_def Let_def save_other)
qed

lemma update_present_keys: "map_of c k = Some e \<Longrightarrow> map fst (AList.update k e' c) = map fst c"
  by (induction c) (auto split: if_splits)

lemma flush_commit_keys [simp]: "map fst (fst (flush_commit zs c n)) = map fst c"
proof (induction zs c n rule: flush_commit.induct)
  case (1 c n)
  then show ?case by simp
next
  case (2 k result rest c n)
  show ?case
  proof (cases "map_of c k")
    case None
    with 2 show ?thesis by simp
  next
    case (Some entry)
    with 2 show ?thesis
      by (cases "is_exception result") (simp_all add: update_present_keys)
  qed
qed

lemma evict_loop_files_other:
  "clash_free md5 (config s) k (map fst xs) \<Longrightarrow> k \<notin> fst ` set xs \<Longrightarrow>
     file_at md5 (config s) (files (evict_loop md5 ws xs s)) k =
     file_at md5 (config s) (files s) k"
proof (induction md5 ws xs s rule: evict_loop.induct)
  case (1 md5 ws s)
  then show ?case by simp
next
  case (2 md5 ws k' entry rest s)
  define s1 where "s1 = (if dirty entry
                then s\<lparr>files := fst (save_to_disk md5 (config s) (ws k') k' (val entry) (files s))\<rparr>
                else s)"
  define s2 where "s2 = s1\<lparr>cache := AList.delete k' (cache s1)\<rparr>"
  have cfg: "config s2 = config s"
    by (simp add: s2_def s1_def)
  have p: "get_file_path md5 (config s) k' \<noteq> get_file_path md5 (config s) k"
    and cr: "clash_free md5 (config s) k (map fst rest)"
    and rest: "k \<notin> fst ` set rest"
    using 2(2,3) by (auto simp: clash_free_iff)
  have "file_at md5 (config s) (files s2) k = file_at md5 (config s) (files s) k"
    using p by (simp add: s2_def s1_def save_other)
  moreover have "file_at md5 (config s2) (files (evict_loop md5 ws rest s2)) k =
      file_at md5 (config s2) (files s2) k"
    using 2(1) [OF s1_def s2_def] cr rest cfg by simp
  ultimately show ?case
    by (simp add: Let_def cfg flip: s1_def s2_def)
qed

lemma get_config [simp]: "config (snd (get md5 now i k s)) = config s"
  by (cases "validate_key k") (simp_all add: get_def Let_def split: option.splits)

lemma delete_config [simp]: "config (snd (delete md5 i k s)) = config s"
  by (cases "validate_key k") (simp_all add: delete_def Let_def split_def)

lemma exists_state [simp]: "snd (exists md5 k s) = s"
  by (cases "validate_key k") (simp_all add: exists_def split: sum.splits)

lemma flush_config [simp]: "config (snd (flush md5 ws s)) = config s"
  by (simp add: flush_def flush_writes_def flush_finish_def Let_def split_def)

lemma flushdb_config [simp]: "config (snd (flushdb c s)) = config s"
  by (simp add: flushdb_def Let_def split_def)

lemma step_config [simp]: "config (step md5 c s) = config s"
  by (cases c) simp_all

lemma run_config [simp]: "config (run md5 cs s) = config s"
  by (induction cs arbitrary: s) simp_all

text \<open>A call brings no key into the cache but the one it names.\<close>

lemma validate_key_same: "validate_key k = Inr k' \<Longrightarrow> k' = k"
  by (auto simp: validate_key_def split: if_splits)

lemma evict_lru_keys: "set (map fst (cache (evict_lru md5 ws s))) \<subseteq> set (map fst (cache s))"
  by (auto simp: evict_lru_def evict_loop_cache)

lemma set_insert_keys: "set (map fst (cache (set_insert now k v s))) = insert k (set (map fst (cache s)))"
  using AList.dom_update [of k _ "cache s"] by (simp add: set_insert_def)

lemma set_key_keys:
  "set (map fst (cache (snd (set_key md5 now ws k v s)))) \<subseteq> insert k (set (map fst (cache s)))"
proof (cases "validate_key k")
  case (Inl e)
  then show ?thesis by (auto simp: set_key_def)
next
  case (Inr k')
  then have [simp]: "k' = k" by (rule validate_key_same)
  show ?thesis
    using evict_lru_keys [of md5 ws "set_insert now k v s"] Inr
    by (auto simp: set_key_def Let_def set_insert_keys simp del: set_map)
qed

lemma get_keys:
  "set (map fst (cache (snd (get md5 now i k s)))) \<subseteq> insert k (set (map fst (cache s)))"
proof (cases "validate_key k")
  case (Inl e)
  then show ?thesis by (auto simp: get_def)
next
  case (Inr k')
  then have [simp]: "k' = k" by (rule validate_key_same)
  show ?thesis
    using Inr AList.dom_update [of k _ "cache s"]
    by (auto simp: get_def Let_def split: option.splits)
qed

lemma delete_keys:
  "set (map fst (cache (snd (delete md5 i k s)))) \<subseteq> set (map fst (cache s))"
  by (cases "validate_key k")
     (auto simp: delete_def Let_def split_def AList.delete_eq)

lemma flush_keys: "map fst (cache (snd (flush md5 ws s))) = map fst (cache s)"
  by (simp add: flush_def flush_writes_def flush_finish_def Let_def split_def)

lemma flushdb_keys: "cache (snd (flushdb c s)) = []"
  by (simp add: flushdb_def Let_def split_def)

lemma step_keys:
  "set (map fst (cache (step md5 c s))) \<subseteq> set (map fst (cache s)) \<union> set (call_keys c)"
proof (cases c)
  case (Set now ws k v)
  then show ?thesis using set_key_keys [of md5 now ws k v s] by auto
next
  case (Get now i k)
  then show ?thesis using get_keys [of md5 now i k s] by auto
next
  case (Delete i k)
  then show ?thesis using delete_keys [of md5 i k s] by auto
next
  case (Exists k)
  then show ?thesis by auto
next
  case (Flush ws)
  then show ?thesis by (simp add: flush_keys)
next
  case (FlushDb c')
  then show ?thesis by (simp add: flushdb_keys)
qed

lemma keys_in_play_step:
  "set (keys_in_play (step md5 c s) cs) \<subseteq> set (keys_in_play s (c # cs))"
  using step_keys [of md5 c s] by (auto simp: keys_in_play_def simp del: set_map)

lemma keys_in_play_first:
  "set (map fst (cache s) @ call_keys c) \<subseteq> set (keys_in_play s (c # cs))"
  by (auto simp: keys_in_play_def)

subsection \<open>A key the engine does not have\<close>

lemma map_of_None_keys: "map_of c k = None \<longleftrightarrow> k \<notin> fst ` set c"
  by (simp add: map_of_eq_None_iff)

lemma evict_lru_absent:
  assumes "absent md5 k s" and "clash_free md5 (config s) k (map fst (cache s))"
  shows "absent md5 k (evict_lru md5 ws s)"
proof (cases "int (length (cache s)) \<le> cache_size (config s)")
  case True
  with assms show ?thesis by (simp add: evict_lru_def)
next
  case False
  let ?T = "take (to_remove (cache s)) (sorted_items (cache s))"
  have sub: "set ?T \<subseteq> set (cache s)"
    using set_take_subset [of "to_remove (cache s)" "sorted_items (cache s)"]
    by (simp add: sorted_items_def)
  have k: "k \<notin> fst ` set (cache s)"
    using assms(1) by (simp add: absent_def map_of_None_keys)
  with sub have kT: "k \<notin> fst ` set ?T" by auto
  have "clash_free md5 (config s) k (map fst ?T)"
    using assms(2) sub by (rule clash_free_sub)
  from evict_loop_files_other [OF this kT, of ws]
  have "file_at md5 (config s) (files (evict_loop md5 ws ?T s)) k = None"
    using assms(1) by (simp add: absent_def)
  moreover have "map_of (cache (evict_loop md5 ws ?T s)) k = None"
    using k by (auto simp: map_of_None_keys evict_loop_cache)
  ultimately show ?thesis
    using False by (simp add: absent_def evict_lru_def)
qed

lemma set_key_absent:
  assumes "absent md5 k s" and "clash_free md5 (config s) k (map fst (cache s) @ [k'])"
    and "k' \<noteq> k"
  shows "absent md5 k (snd (set_key md5 now ws k' v s))"
proof (cases "validate_key k'")
  case (Inl e)
  with assms show ?thesis by (simp add: set_key_def)
next
  case (Inr k'')
  then have [simp]: "k'' = k'" by (rule validate_key_same)
  let ?s1 = "set_insert now k' v s"
  have a1: "absent md5 k ?s1"
    using assms(1,3) by (simp add: absent_def set_insert_def AList.update_conv')
  have "clash_free md5 (config ?s1) k (map fst (cache ?s1))"
    using assms(2) set_insert_keys [of now k' v s]
    by (auto simp: clash_free_iff simp del: set_map)
  with a1 have "absent md5 k (evict_lru md5 ws ?s1)"
    by (rule evict_lru_absent)
  with a1 Inr show ?thesis
    by (simp add: set_key_def Let_def)
qed

lemma get_absent:
  assumes "absent md5 k s"
  shows "absent md5 k (snd (get md5 now i k' s))"
proof (cases "validate_key k'")
  case (Inl e)
  with assms show ?thesis by (simp add: get_def)
next
  case (Inr k'')
  then have [simp]: "k'' = k'" by (rule validate_key_same)
  show ?thesis
  proof (cases "k' = k")
    case True
    with assms Inr show ?thesis
      by (simp add: get_def absent_def load_file_at Let_def)
  next
    case False
    with assms Inr show ?thesis
      by (simp add: get_def absent_def Let_def AList.update_conv' split: option.splits)
  qed
qed

lemma remove_file_at:
  "file_at md5 cfg fs k = None \<Longrightarrow>
     file_at md5 cfg (fst (remove_from_disk md5 cfg i k' fs)) k = None"
  by (cases i)
     (auto simp: remove_from_disk_def file_at_def split: sum.splits option.splits)

lemma delete_absent:
  assumes "absent md5 k s"
  shows "absent md5 k (snd (delete md5 i k' s))"
proof (cases "validate_key k'")
  case (Inl e)
  with assms show ?thesis by (simp add: delete_def)
next
  case (Inr k'')
  with assms show ?thesis
    by (simp add: delete_def absent_def Let_def split_def AList.delete_conv' remove_file_at)
qed

lemma flush_absent:
  assumes "absent md5 k s" and "clash_free md5 (config s) k (map fst (cache s))"
  shows "absent md5 k (snd (flush md5 ws s))"
proof -
  let ?snap = "dirty_entries (cache s)"
  have k: "k \<notin> fst ` set (cache s)"
    using assms(1) by (simp add: absent_def map_of_None_keys)
  then have ks: "k \<notin> fst ` set ?snap"
    by (auto simp: dirty_entries_def)
  have "clash_free md5 (config s) k (map fst ?snap)"
    using assms(2) by (rule clash_free_sub) (simp add: dirty_entries_def)
  from run_saves_other [OF this ks, of ws "files s"]
  have f: "file_at md5 (config s) (fst (run_saves md5 (config s) ws ?snap (files s))) k = None"
    using assms(1) by (simp add: absent_def)
  have "map_of (fst (flush_commit zs (cache s) n)) k = None" for zs n
    using k by (simp add: map_of_None_keys flip: set_map)
  with f assms(1) show ?thesis
    by (simp add: flush_def flush_writes_def flush_finish_def Let_def split_def absent_def)
qed

lemma flushdb_absent:
  assumes "absent md5 k s"
  shows "absent md5 k (snd (flushdb c s))"
  using assms
  by (cases c)
     (auto simp: flushdb_def clear_disk_def absent_def file_at_def Let_def restrict_map_def
           split: sum.splits)

lemma step_absent:
  assumes "absent md5 k s" and "clash_free md5 (config s) k (map fst (cache s) @ call_keys c)"
    and "sets_not k c"
  shows "absent md5 k (step md5 c s)"
proof (cases c)
  case (Set now ws k' v)
  with assms show ?thesis by (simp add: set_key_absent)
next
  case (Get now i k')
  with assms show ?thesis by (simp add: get_absent)
next
  case (Delete i k')
  with assms show ?thesis by (simp add: delete_absent)
next
  case (Exists k')
  with assms show ?thesis by simp
next
  case (Flush ws)
  with assms show ?thesis by (simp add: flush_absent)
next
  case (FlushDb c')
  with assms show ?thesis by (simp add: flushdb_absent)
qed

lemma run_absent:
  "absent md5 k s \<Longrightarrow> clash_free md5 (config s) k (keys_in_play s cs) \<Longrightarrow>
   list_all (sets_not k) cs \<Longrightarrow> absent md5 k (run md5 cs s)"
proof (induction cs arbitrary: s)
  case Nil
  then show ?case by simp
next
  case (Cons c cs)
  have c1: "clash_free md5 (config s) k (map fst (cache s) @ call_keys c)"
    using Cons.prems(2) keys_in_play_first [of s c cs] by (rule clash_free_mono)
  have c2: "clash_free md5 (config (step md5 c s)) k (keys_in_play (step md5 c s) cs)"
    using Cons.prems(2) keys_in_play_step [of md5 c s cs] by (auto intro: clash_free_mono)
  have "absent md5 k (step md5 c s)"
    using Cons.prems(1) c1 Cons.prems(3) by (intro step_absent) simp_all
  with Cons.IH [of "step md5 c s"] c2 Cons.prems(3) show ?case
    by simp
qed

lemma get_of_absent:
  assumes "k \<noteq> []" and "length k \<le> 256" and "absent md5 k s"
  shows "get md5 now i k s = (Inr PyNone, s)"
  using assms by (simp add: get_def validate_key_valid absent_def load_file_at Let_def)

subsection \<open>Delete\<close>

lemma delete_result:
  assumes "k \<noteq> []" and "length k \<le> 256"
  shows "fst (delete md5 i k s) =
           Inr (md5 k \<noteq> None \<and> (file_at md5 (config s) (files s) k = None \<or> i = IoOk))"
    and "map_of (cache (snd (delete md5 i k s))) k = None"
    and "md5 k \<noteq> None \<and> (file_at md5 (config s) (files s) k = None \<or> i = IoOk) \<Longrightarrow>
           file_at md5 (config s) (files (snd (delete md5 i k s))) k = None"
    and "\<not> (md5 k \<noteq> None \<and> (file_at md5 (config s) (files s) k = None \<or> i = IoOk)) \<Longrightarrow>
           files (snd (delete md5 i k s)) = files s"
proof -
  show "map_of (cache (snd (delete md5 i k s))) k = None"
    using assms
    by (simp add: delete_def validate_key_valid Let_def split_def AList.delete_conv')
  consider (none) "md5 k = None"
    | (some) p where "get_file_path md5 (config s) k = Inr p" "md5 k \<noteq> None"
    using path_defined [of md5 k "config s"] by blast
  then have res:
    "fst (delete md5 i k s) =
       Inr (md5 k \<noteq> None \<and> (file_at md5 (config s) (files s) k = None \<or> i = IoOk))
     \<and> (md5 k \<noteq> None \<and> (file_at md5 (config s) (files s) k = None \<or> i = IoOk) \<longrightarrow>
           file_at md5 (config s) (files (snd (delete md5 i k s))) k = None)
     \<and> (\<not> (md5 k \<noteq> None \<and> (file_at md5 (config s) (files s) k = None \<or> i = IoOk)) \<longrightarrow>
           files (snd (delete md5 i k s)) = files s)"
  proof cases
    case none
    with assms show ?thesis
      by (simp add: delete_def validate_key_valid Let_def split_def remove_from_disk_def
            path_undefined)
  next
    case some
    with assms show ?thesis
      by (cases i; cases "files s p")
         (simp_all add: delete_def validate_key_valid Let_def split_def remove_from_disk_def
            file_at_def)
  qed
  from res show "fst (delete md5 i k s) =
       Inr (md5 k \<noteq> None \<and> (file_at md5 (config s) (files s) k = None \<or> i = IoOk))"
    by blast
  show "file_at md5 (config s) (files (snd (delete md5 i k s))) k = None"
    if "md5 k \<noteq> None \<and> (file_at md5 (config s) (files s) k = None \<or> i = IoOk)"
    using res that by blast
  show "files (snd (delete md5 i k s)) = files s"
    if "\<not> (md5 k \<noteq> None \<and> (file_at md5 (config s) (files s) k = None \<or> i = IoOk))"
    using res that by blast
qed

text \<open>
  Claim C7 as it is stated fails when the file cannot be removed. The key \<open>a\<close> is cached
  and on disk; \<open>delete("a")\<close> with an \<open>unlink\<close> that raises returns \<open>False\<close>, the entry
  is gone from the cache, the record is still on disk, and the next \<open>get("a")\<close> finds it.
\<close>

theorem delete_failure_counterexample:
  "(let s = snd (get example_md5 1 IoOk ''a'' (create_engine (example_config 1) example_files));
        s' = snd (delete example_md5 IoErr ''a'' s)
    in cache s = [(''a'', \<lparr>val = PyObj 1, timestamp = 1, dirty = False, access_count = 1\<rparr>)]
       \<and> get_file_path example_md5 (config s) ''a'' = Inr ''./fdb_data/00/00a.fdb''
       \<and> fst (delete example_md5 IoErr ''a'' s) = Inr False
       \<and> cache s' = []
       \<and> files s' ''./fdb_data/00/00a.fdb'' = Some (Record ''a'' (PyObj 1))
       \<and> fst (get example_md5 2 IoOk ''a'' s') = Inr (PyObj 1)
       \<and> fst (get example_md5 2 IoOk ''a'' s') \<noteq> Inr PyNone)"
  by (simp add: engine_defs example_defs example_files_def)

text \<open>
  Claim C7, with the failure of the removal in it. For a valid key, \<open>delete\<close> removes the
  entry from the cache in every case. Its result is a boolean, \<open>True\<close> exactly when the
  key has a path and there was no file or the removal of the file worked. After \<open>True\<close>
  the file is gone and \<open>get\<close> of the key returns \<open>None\<close>, directly and after any calls
  that do not set the key, provided none of the keys in play shares its path. After
  \<open>False\<close> the files are as they were, and a \<open>get\<close> that can read finds the record
  that is still there.
\<close>

theorem delete_erases:
  assumes "k \<noteq> []" and "length k \<le> 256"
  shows "map_of (cache (snd (delete md5 i k s))) k = None
       \<and> (fst (delete md5 i k s) = Inr True \<or> fst (delete md5 i k s) = Inr False)
       \<and> (fst (delete md5 i k s) = Inr True \<longleftrightarrow>
            md5 k \<noteq> None \<and> (file_at md5 (config s) (files s) k = None \<or> i = IoOk))
       \<and> (fst (delete md5 i k s) = Inr True \<longrightarrow>
            file_at md5 (config s) (files (snd (delete md5 i k s))) k = None
            \<and> get md5 now i' k (snd (delete md5 i k s)) = (Inr PyNone, snd (delete md5 i k s)))
       \<and> (fst (delete md5 i k s) = Inr True
            \<and> clash_free md5 (config s) k (keys_in_play (snd (delete md5 i k s)) cs)
            \<and> list_all (sets_not k) cs \<longrightarrow>
            get md5 now i' k (run md5 cs (snd (delete md5 i k s))) =
              (Inr PyNone, run md5 cs (snd (delete md5 i k s))))
       \<and> (fst (delete md5 i k s) = Inr False \<longrightarrow> files (snd (delete md5 i k s)) = files s)
       \<and> (fst (delete md5 i k s) = Inr False
            \<and> file_at md5 (config s) (files s) k = Some (Record k' (PyObj x)) \<longrightarrow>
            fst (get md5 now IoOk k (snd (delete md5 i k s))) = Inr (PyObj x))"
proof -
  let ?s' = "snd (delete md5 i k s)"
  let ?ok = "md5 k \<noteq> None \<and> (file_at md5 (config s) (files s) k = None \<or> i = IoOk)"
  note d = delete_result [OF assms, where ?md5.0 = md5 and i = i and s = s]
  have r: "fst (delete md5 i k s) = Inr True \<longleftrightarrow> ?ok"
    and r': "fst (delete md5 i k s) = Inr False \<longleftrightarrow> \<not> ?ok"
    by (simp_all add: d(1))
  have ab: "absent md5 k ?s'" if "?ok"
    using that d(2) d(3) by (simp add: absent_def)
  have g: "get md5 now i' k ?s' = (Inr PyNone, ?s')" if "?ok"
    by (rule get_of_absent [OF assms ab [OF that]])
  have q: "get md5 now i' k (run md5 cs ?s') = (Inr PyNone, run md5 cs ?s')"
    if "?ok" and "clash_free md5 (config s) k (keys_in_play ?s' cs)" and "list_all (sets_not k) cs"
    by (rule get_of_absent [OF assms run_absent]) (use that ab in simp_all)
  have still: "fst (get md5 now IoOk k ?s') = Inr (PyObj x)"
    if "\<not> ?ok" and "file_at md5 (config s) (files s) k = Some (Record k' (PyObj x))"
    using that assms d(2) d(4)
    by (simp add: get_def validate_key_valid load_file_at Let_def)
  have b: "fst (delete md5 i k s) = Inr True \<or> fst (delete md5 i k s) = Inr False"
    by (cases "?ok") (simp_all add: d(1))
  show ?thesis
    using d(2) d(3) d(4) r r' g q still b by blast
qed

theorem delete_erases_witness:
  "(let s = snd (get first_char_md5 1 IoOk ''a'' (create_engine (example_config 1) example_files));
        s' = snd (delete first_char_md5 IoOk ''a'' s);
        cs = [Get 2 IoOk ''b'', Set 3 (\<lambda>_. WrOk) ''c'' (PyObj 3), Flush (\<lambda>_. WrOk),
              FlushDb (ClrFail {})]
    in ''a'' \<noteq> [] \<and> length ''a'' \<le> 256
       \<and> get_file_path first_char_md5 (config s) ''ab'' = get_file_path first_char_md5 (config s) ''a''
       \<and> map_of (cache s) ''a'' = Some \<lparr>val = PyObj 1, timestamp = 1, dirty = False, access_count = 1\<rparr>
       \<and> file_at first_char_md5 (config s) (files s) ''a'' = Some (Record ''a'' (PyObj 1))
       \<and> fst (delete first_char_md5 IoOk ''a'' s) = Inr True
       \<and> map_of (cache s') ''a'' = None
       \<and> file_at first_char_md5 (config s) (files s') ''a'' = None
       \<and> clash_free first_char_md5 (config s) ''a'' (keys_in_play s' cs)
       \<and> list_all (sets_not ''a'') cs
       \<and> get first_char_md5 5 IoOk ''a'' (run first_char_md5 cs s') =
            (Inr PyNone, run first_char_md5 cs s')
       \<and> fst (delete first_char_md5 IoErr ''a'' s) = Inr False
       \<and> files (snd (delete first_char_md5 IoErr ''a'' s)) = files s
       \<and> fst (get first_char_md5 2 IoOk ''a'' (snd (delete first_char_md5 IoErr ''a'' s))) =
            Inr (PyObj 1))"
proof -
  define s where "s = snd (get first_char_md5 1 IoOk ''a'' (create_engine (example_config 1) example_files))"
  define s' where "s' = snd (delete first_char_md5 IoOk ''a'' s)"
  define cs :: "(char, int) call list"
    where "cs = [Get 2 IoOk ''b'', Set 3 (\<lambda>_. WrOk) ''c'' (PyObj 3), Flush (\<lambda>_. WrOk),
                 FlushDb (ClrFail {})]"
  have c: "map_of (cache s) ''a'' = Some \<lparr>val = PyObj 1, timestamp = 1, dirty = False, access_count = 1\<rparr>"
    and f: "file_at first_char_md5 (config s) (files s) ''a'' = Some (Record ''a'' (PyObj 1))"
    and cf: "config s = example_config 1"
    and col: "get_file_path first_char_md5 (config s) ''ab'' = get_file_path first_char_md5 (config s) ''a''"
    by (simp_all add: s_def engine_defs example_defs example_files_def)
  have k1: "''a'' \<noteq> []" and k2: "length ''a'' \<le> 256"
    by simp_all
  have cl: "clash_free first_char_md5 (config s) ''a'' (keys_in_play s' cs)"
    by (simp add: clash_free_def keys_in_play_def cs_def s'_def s_def engine_defs example_defs
          example_files_def)
  have nots: "list_all (sets_not ''a'') cs"
    by (simp add: cs_def)
  have enc: "first_char_md5 ''a'' \<noteq> None"
    by (simp add: first_char_md5_def)
  note th = delete_erases [OF k1 k2, where ?md5.0 = first_char_md5 and i = IoOk and s = s
      and now = 5 and i' = IoOk and cs = cs, folded s'_def]
  from th enc have r: "fst (delete first_char_md5 IoOk ''a'' s) = Inr True"
    by blast
  from th have c': "map_of (cache s') ''a'' = None"
    by blast
  from th r have f': "file_at first_char_md5 (config s) (files s') ''a'' = None"
    by blast
  from th r cl nots have g: "get first_char_md5 5 IoOk ''a'' (run first_char_md5 cs s') =
      (Inr PyNone, run first_char_md5 cs s')"
    by blast
  note th' = delete_erases [OF k1 k2, where ?md5.0 = first_char_md5 and i = IoErr and s = s
      and now = 2 and k' = "''a''" and x = 1]
  from th' f have r': "fst (delete first_char_md5 IoErr ''a'' s) = Inr False"
    by auto
  from th' r' have same: "files (snd (delete first_char_md5 IoErr ''a'' s)) = files s"
    by blast
  from th' r' f
  have g': "fst (get first_char_md5 2 IoOk ''a'' (snd (delete first_char_md5 IoErr ''a'' s))) =
      Inr (PyObj 1)"
    by blast
  show ?thesis
    unfolding Let_def s_def [symmetric] s'_def [symmetric] cs_def [symmetric]
    by (intro conjI k1 k2 col c f r c' f' cl nots g r' same g')
qed

subsection \<open>A key the engine holds\<close>

lemma distinct_map_of:
  "distinct (map fst c) \<Longrightarrow> (k, e) \<in> set c \<Longrightarrow> map_of c k = Some e"
  by simp

lemma evict_loop_holds:
  "md5 k \<noteq> None \<Longrightarrow> clash_free md5 (config s) k (map fst xs) \<Longrightarrow> ws k = WrOk \<Longrightarrow>
   holds md5 k v s \<Longrightarrow>
   (\<forall>e. (k, e) \<in> set xs \<longrightarrow> val e = v \<and> (dirty e \<or> stored md5 k v s)) \<Longrightarrow>
   holds md5 k v (evict_loop md5 ws xs s)"
proof (induction md5 ws xs s rule: evict_loop.induct)
  case (1 md5 ws s)
  then show ?case by simp
next
  case (2 md5 ws k' entry rest s)
  define s1 where "s1 = (if dirty entry
                then s\<lparr>files := fst (save_to_disk md5 (config s) (ws k') k' (val entry) (files s))\<rparr>
                else s)"
  define s2 where "s2 = s1\<lparr>cache := AList.delete k' (cache s1)\<rparr>"
  have cfg: "config s2 = config s" and c2: "cache s2 = AList.delete k' (cache s)"
    by (simp_all add: s2_def s1_def)
  have p: "get_file_path md5 (config s) k' \<noteq> get_file_path md5 (config s) k" if "k' \<noteq> k"
    using 2(3) that by (auto simp: clash_free_iff)
  have cr: "clash_free md5 (config s2) k (map fst rest)"
    using 2(3) by (auto simp: clash_free_iff cfg)
  have st: "stored md5 k v s2" if "stored md5 k v s"
  proof (cases "k' = k")
    case True
    with 2(2,4,6) that show ?thesis
      by (auto simp: stored_def s2_def s1_def save_same)
  next
    case False
    with p that show ?thesis
      by (auto simp: stored_def s2_def s1_def save_other)
  qed
  have h2: "holds md5 k v s2"
  proof (cases "k' = k")
    case True
    from 2(6) True have e: "val entry = v \<and> (dirty entry \<or> stored md5 k v s)"
      by simp
    have "stored md5 k v s2"
    proof (cases "dirty entry")
      case True
      with e \<open>k' = k\<close> 2(2,4) show ?thesis
        by (simp add: stored_def s2_def s1_def save_same)
    next
      case False
      with e st show ?thesis by simp
    qed
    then show ?thesis
      by (simp add: holds_def c2 True AList.delete_conv')
  next
    case False
    have "stored md5 k v s2 = stored md5 k v s"
      using p [OF False] by (simp add: stored_def s2_def s1_def save_other)
    with 2(5) False show ?thesis
      by (auto simp: holds_def c2 split: option.splits)
  qed
  have q2: "\<forall>e. (k, e) \<in> set rest \<longrightarrow> val e = v \<and> (dirty e \<or> stored md5 k v s2)"
    using 2(6) st by auto
  have "holds md5 k v (evict_loop md5 ws rest s2)"
    using 2(1) [OF s1_def s2_def] 2(2) cr 2(4) h2 q2 by simp
  then show ?case
    by (simp add: Let_def s2_def s1_def)
qed

lemma evict_lru_holds:
  assumes "md5 k \<noteq> None" and "clash_free md5 (config s) k (map fst (cache s))"
    and "ws k = WrOk" and "holds md5 k v s" and "distinct (map fst (cache s))"
  shows "holds md5 k v (evict_lru md5 ws s)"
proof (cases "int (length (cache s)) \<le> cache_size (config s)")
  case True
  with assms(4) show ?thesis by (simp add: evict_lru_def)
next
  case False
  let ?T = "take (to_remove (cache s)) (sorted_items (cache s))"
  have sub: "set ?T \<subseteq> set (cache s)"
    using set_take_subset [of "to_remove (cache s)" "sorted_items (cache s)"]
    by (simp add: sorted_items_def)
  have cl: "clash_free md5 (config s) k (map fst ?T)"
    using assms(2) sub by (rule clash_free_sub)
  have q: "\<forall>e. (k, e) \<in> set ?T \<longrightarrow> val e = v \<and> (dirty e \<or> stored md5 k v s)"
  proof (intro allI impI)
    fix e assume "(k, e) \<in> set ?T"
    with sub have "(k, e) \<in> set (cache s)" by auto
    with assms(5) have "map_of (cache s) k = Some e" by simp
    with assms(4) show "val e = v \<and> (dirty e \<or> stored md5 k v s)"
      by (simp add: holds_def)
  qed
  have "holds md5 k v (evict_loop md5 ws ?T s)"
    using assms(1) cl assms(3,4) q by (rule evict_loop_holds)
  with False show ?thesis
    by (simp add: evict_lru_def)
qed

lemma evict_lru_distinct:
  "distinct (map fst (cache s)) \<Longrightarrow> distinct (map fst (cache (evict_lru md5 ws s)))"
  by (simp add: evict_lru_def evict_loop_cache distinct_map_filter)

lemma set_key_distinct:
  "distinct (map fst (cache s)) \<Longrightarrow> distinct (map fst (cache (snd (set_key md5 now ws k v s))))"
  by (cases "validate_key k")
     (simp_all add: set_key_def Let_def evict_lru_distinct set_insert_def AList.distinct_update)

lemma get_distinct:
  "distinct (map fst (cache s)) \<Longrightarrow> distinct (map fst (cache (snd (get md5 now i k s))))"
  by (cases "validate_key k")
     (simp_all add: get_def Let_def AList.distinct_update split: option.splits)

lemma delete_distinct:
  "distinct (map fst (cache s)) \<Longrightarrow> distinct (map fst (cache (snd (delete md5 i k s))))"
  by (cases "validate_key k")
     (simp_all add: delete_def Let_def split_def AList.distinct_delete)

lemma flush_distinct:
  "distinct (map fst (cache s)) \<Longrightarrow> distinct (map fst (cache (snd (flush md5 ws s))))"
  by (simp add: flush_def flush_writes_def flush_finish_def Let_def split_def)

lemma flushdb_distinct: "distinct (map fst (cache (snd (flushdb c s))))"
  by (simp add: flushdb_def Let_def split_def)

lemma step_distinct:
  "distinct (map fst (cache s)) \<Longrightarrow> distinct (map fst (cache (step md5 c s)))"
  by (cases c)
     (simp_all add: set_key_distinct get_distinct delete_distinct flush_distinct flushdb_distinct)

text \<open>
  So the dict of an engine never has a key twice, whatever calls it has run since it was
  created: the hypothesis of distinct keys below holds of every state that can arise.
\<close>

lemma run_distinct:
  "distinct (map fst (cache s)) \<Longrightarrow> distinct (map fst (cache (run md5 cs s)))"
  by (induction cs arbitrary: s) (simp_all add: step_distinct)

lemma created_distinct: "distinct (map fst (cache (run md5 cs (create_engine cfg fs))))"
  by (rule run_distinct) (simp add: create_engine_def)

lemma holds_eqI:
  assumes "map_of (cache s') k = map_of (cache s) k"
    and "file_at md5 (config s') (files s') k = file_at md5 (config s) (files s) k"
  shows "holds md5 k v s' = holds md5 k v s"
proof -
  have "stored md5 k v s' = stored md5 k v s"
    using assms(2) by (simp add: stored_def)
  with assms(1) show ?thesis
    by (simp add: holds_def split: option.splits)
qed

lemma set_key_establishes:
  assumes "k \<noteq> []" and "length k \<le> 256"
    and "md5 k \<noteq> None" and "clash_free md5 (config s) k (map fst (cache s))"
    and "ws k = WrOk" and "distinct (map fst (cache s))"
  shows "holds md5 k v (snd (set_key md5 now ws k v s))"
proof -
  let ?s1 = "set_insert now k v s"
  have h1: "holds md5 k v ?s1"
    by (simp add: holds_def set_insert_def AList.update_conv')
  have d1: "distinct (map fst (cache ?s1))"
    using assms(6) by (simp add: set_insert_def AList.distinct_update)
  have c1: "clash_free md5 (config ?s1) k (map fst (cache ?s1))"
    using assms(4) set_insert_keys [of now k v s]
    by (auto simp: clash_free_iff simp del: set_map)
  have "holds md5 k v (evict_lru md5 ws ?s1)"
    using assms(3) c1 assms(5) h1 d1 by (rule evict_lru_holds)
  with h1 assms(1,2) show ?thesis
    by (simp add: set_key_def validate_key_valid Let_def)
qed

lemma set_key_holds:
  assumes "holds md5 k v s" and "md5 k \<noteq> None"
    and "clash_free md5 (config s) k (map fst (cache s) @ [k'])" and "ws k = WrOk"
    and "distinct (map fst (cache s))" and "k' \<noteq> k"
  shows "holds md5 k v (snd (set_key md5 now ws k' v' s))"
proof (cases "validate_key k'")
  case (Inl e)
  with assms(1) show ?thesis by (simp add: set_key_def)
next
  case (Inr k'')
  then have [simp]: "k'' = k'" by (rule validate_key_same)
  let ?s1 = "set_insert now k' v' s"
  have "holds md5 k v ?s1 = holds md5 k v s"
    using assms(6) by (intro holds_eqI) (simp_all add: set_insert_def AList.update_conv')
  with assms(1) have h1: "holds md5 k v ?s1"
    by simp
  have d1: "distinct (map fst (cache ?s1))"
    using assms(5) by (simp add: set_insert_def AList.distinct_update)
  have c1: "clash_free md5 (config ?s1) k (map fst (cache ?s1))"
    using assms(3) set_insert_keys [of now k' v' s]
    by (auto simp: clash_free_iff simp del: set_map)
  have "holds md5 k v (evict_lru md5 ws ?s1)"
    using assms(2) c1 assms(4) h1 d1 by (rule evict_lru_holds)
  with h1 Inr show ?thesis
    by (simp add: set_key_def Let_def)
qed

lemma get_holds:
  assumes "holds md5 k v s"
  shows "holds md5 k v (snd (get md5 now i k' s))"
proof (cases "validate_key k'")
  case (Inl e)
  with assms show ?thesis by (simp add: get_def)
next
  case (Inr k'')
  then have [simp]: "k'' = k'" by (rule validate_key_same)
  show ?thesis
  proof (cases "k' = k")
    case True
    show ?thesis
    proof (cases "map_of (cache s) k")
      case None
      with assms have "stored md5 k v s" by (simp add: holds_def)
      with None True Inr show ?thesis
        by (cases i)
           (simp_all add: get_def holds_def stored_def load_file_at Let_def AList.update_conv')
    next
      case (Some e)
      with assms True Inr show ?thesis
        by (simp add: get_def holds_def stored_def AList.update_conv')
    qed
  next
    case False
    have "holds md5 k v (snd (get md5 now i k' s)) = holds md5 k v s"
      using False Inr
      by (intro holds_eqI)
         (auto simp: get_def Let_def AList.update_conv' split: option.splits)
    with assms show ?thesis
      by simp
  qed
qed

lemma remove_other:
  "get_file_path md5 cfg k' \<noteq> get_file_path md5 cfg k \<Longrightarrow>
     file_at md5 cfg (fst (remove_from_disk md5 cfg i k' fs)) k = file_at md5 cfg fs k"
  by (cases i)
     (auto simp: remove_from_disk_def file_at_def split: sum.splits option.splits)

lemma delete_holds:
  assumes "holds md5 k v s"
    and "get_file_path md5 (config s) k' \<noteq> get_file_path md5 (config s) k" and "k' \<noteq> k"
  shows "holds md5 k v (snd (delete md5 i k' s))"
proof (cases "validate_key k'")
  case (Inl e)
  with assms(1) show ?thesis by (simp add: delete_def)
next
  case (Inr k'')
  then have [simp]: "k'' = k'" by (rule validate_key_same)
  have f: "file_at md5 (config s) (files (snd (delete md5 i k' s))) k =
      file_at md5 (config s) (files s) k"
    using Inr assms(2)
    by (simp add: delete_def Let_def split_def remove_other)
  have c: "map_of (cache (snd (delete md5 i k' s))) k = map_of (cache s) k"
    using Inr assms(3)
    by (auto simp: delete_def Let_def split_def AList.delete_conv')
  have "holds md5 k v (snd (delete md5 i k' s)) = holds md5 k v s"
    by (intro holds_eqI) (simp_all add: f c)
  with assms(1) show ?thesis
    by simp
qed

lemma flush_commit_val:
  "map_option val (map_of (fst (flush_commit zs c n)) k) = map_option val (map_of c k)"
proof (induction zs c n rule: flush_commit.induct)
  case (1 c n)
  then show ?case by simp
next
  case (2 k' result rest c n)
  show ?case
  proof (cases "map_of c k'")
    case None
    with 2 show ?thesis by simp
  next
    case (Some entry)
    with 2 show ?thesis
      by (cases "is_exception result") (auto simp: AList.update_conv')
  qed
qed

lemma run_saves_stored:
  "md5 k \<noteq> None \<Longrightarrow> clash_free md5 cfg k (map fst xs) \<Longrightarrow> ws k = WrOk \<Longrightarrow>
   (\<forall>e. (k, e) \<in> set xs \<longrightarrow> val e = v) \<Longrightarrow>
   k \<in> fst ` set xs \<or> file_at md5 cfg fs k = Some (Record k v) \<Longrightarrow>
     file_at md5 cfg (fst (run_saves md5 cfg ws xs fs)) k = Some (Record k v)"
proof (induction xs arbitrary: fs)
  case Nil
  then show ?case by simp
next
  case (Cons x xs)
  obtain k' e where x: "x = (k', e)" by (cases x)
  let ?fs1 = "fst (save_to_disk md5 cfg (ws k') k' (val e) fs)"
  have r: "fst (run_saves md5 cfg ws (x # xs) fs) = fst (run_saves md5 cfg ws xs ?fs1)"
    by (simp add: x split_def Let_def)
  have cl: "clash_free md5 cfg k (map fst xs)"
    using Cons.prems(2) by (auto simp: clash_free_iff)
  have "k \<in> fst ` set xs \<or> file_at md5 cfg ?fs1 k = Some (Record k v)"
  proof (cases "k' = k")
    case True
    with Cons.prems(1,3,4) show ?thesis
      by (simp add: x save_same)
  next
    case False
    with Cons.prems(2) have "get_file_path md5 cfg k' \<noteq> get_file_path md5 cfg k"
      by (auto simp: x clash_free_iff)
    with False Cons.prems(5) show ?thesis
      by (auto simp: x save_other)
  qed
  with Cons.IH [of ?fs1] Cons.prems(1,3,4) cl show ?case
    by (simp add: r)
qed

lemma flush_files:
  "files (snd (flush md5 ws s)) =
     fst (run_saves md5 (config s) ws (dirty_entries (cache s)) (files s))"
  by (simp add: flush_def flush_writes_def flush_finish_def Let_def split_def)

lemma flush_cache_val:
  "map_option val (map_of (cache (snd (flush md5 ws s))) k) = map_option val (map_of (cache s) k)"
  by (simp add: flush_def flush_writes_def flush_finish_def Let_def split_def flush_commit_val)

lemma flush_holds:
  assumes "holds md5 k v s" and "md5 k \<noteq> None"
    and "clash_free md5 (config s) k (map fst (cache s))" and "ws k = WrOk"
    and "distinct (map fst (cache s))"
  shows "holds md5 k v (snd (flush md5 ws s))"
proof -
  let ?snap = "dirty_entries (cache s)"
  have sub: "set ?snap \<subseteq> set (cache s)"
    by (auto simp: dirty_entries_def)
  have cl: "clash_free md5 (config s) k (map fst ?snap)"
    using assms(3) sub by (rule clash_free_sub)
  have vals: "\<forall>e. (k, e) \<in> set ?snap \<longrightarrow> val e = v"
  proof (intro allI impI)
    fix e assume "(k, e) \<in> set ?snap"
    then have "(k, e) \<in> set (cache s)" by (simp add: dirty_entries_def)
    with assms(5) have "map_of (cache s) k = Some e" by simp
    with assms(1) show "val e = v" by (simp add: holds_def)
  qed
  have "k \<in> fst ` set ?snap \<or> file_at md5 (config s) (files s) k = Some (Record k v)"
  proof (cases "map_of (cache s) k")
    case None
    with assms(1) show ?thesis by (simp add: holds_def stored_def)
  next
    case (Some e)
    show ?thesis
    proof (cases "dirty e")
      case True
      from Some have "(k, e) \<in> set (cache s)" by (rule map_of_SomeD)
      with True have "(k, e) \<in> set ?snap" by (simp add: dirty_entries_def)
      then show ?thesis by force
    next
      case False
      with Some assms(1) show ?thesis by (simp add: holds_def stored_def)
    qed
  qed
  with assms(2,4) cl vals have st: "stored md5 k v (snd (flush md5 ws s))"
    by (simp add: stored_def flush_files run_saves_stored)
  show ?thesis
  proof (cases "map_of (cache (snd (flush md5 ws s))) k")
    case None
    with st show ?thesis by (simp add: holds_def)
  next
    case (Some e')
    with flush_cache_val [of md5 ws s k] obtain e where "map_of (cache s) k = Some e" "val e' = val e"
      by (cases "map_of (cache s) k") auto
    with assms(1) have "val e' = v" by (simp add: holds_def)
    with Some st show ?thesis by (simp add: holds_def)
  qed
qed

lemma step_holds:
  assumes "holds md5 k v s" and "md5 k \<noteq> None"
    and "clash_free md5 (config s) k (map fst (cache s) @ call_keys c)"
    and "distinct (map fst (cache s))" and "keeps k c"
  shows "holds md5 k v (step md5 c s)"
proof (cases c)
  case (Set now ws k' v')
  with assms show ?thesis by (simp add: set_key_holds)
next
  case (Get now i k')
  with assms(1) show ?thesis by (simp add: get_holds)
next
  case (Delete i k')
  with assms(3,5) have "get_file_path md5 (config s) k' \<noteq> get_file_path md5 (config s) k"
    by (auto simp: clash_free_iff)
  with Delete assms(1,5) show ?thesis by (simp add: delete_holds)
next
  case (Exists k')
  with assms(1) show ?thesis by simp
next
  case (Flush ws)
  with assms show ?thesis by (simp add: flush_holds)
next
  case (FlushDb c')
  with assms(5) show ?thesis by simp
qed

lemma run_holds:
  "holds md5 k v s \<Longrightarrow> md5 k \<noteq> None \<Longrightarrow> clash_free md5 (config s) k (keys_in_play s cs) \<Longrightarrow>
   distinct (map fst (cache s)) \<Longrightarrow> list_all (keeps k) cs \<Longrightarrow> holds md5 k v (run md5 cs s)"
proof (induction cs arbitrary: s)
  case Nil
  then show ?case by simp
next
  case (Cons c cs)
  have c1: "clash_free md5 (config s) k (map fst (cache s) @ call_keys c)"
    using Cons.prems(3) keys_in_play_first [of s c cs] by (rule clash_free_mono)
  have c2: "clash_free md5 (config (step md5 c s)) k (keys_in_play (step md5 c s) cs)"
    using Cons.prems(3) keys_in_play_step [of md5 c s cs] by (auto intro: clash_free_mono)
  have h: "holds md5 k v (step md5 c s)"
    using Cons.prems(1,2) c1 Cons.prems(4,5) by (intro step_holds) simp_all
  have d: "distinct (map fst (cache (step md5 c s)))"
    using Cons.prems(4) by (rule step_distinct)
  from Cons.IH [of "step md5 c s"] h Cons.prems(2) c2 d Cons.prems(5) show ?case
    by simp
qed

lemma get_of_holds:
  assumes "k \<noteq> []" and "length k \<le> 256" and "holds md5 k v s"
  shows "fst (get md5 now IoOk k s) = Inr v"
proof (cases "map_of (cache s) k")
  case None
  with assms show ?thesis
    by (simp add: get_def validate_key_valid holds_def stored_def load_file_at Let_def)
next
  case (Some e)
  with assms show ?thesis
    by (simp add: get_def validate_key_valid holds_def)
qed

text \<open>
  Claim C6, for calls made one after the other and a disk that works where the key is
  concerned. Let \<open>k\<close> be a valid key that \<open>str.encode\<close> accepts, and let no other key in
  play have the file of \<open>k\<close>: no key of the cache at the time of the \<open>set\<close> and no key of
  a later call has the path of \<open>k\<close>, whatever other strings hash to. After \<open>set(k, v)\<close> and
  any calls that neither set nor delete \<open>k\<close> and are not \<open>flushdb\<close>, \<open>get(k)\<close> returns
  \<open>v\<close>, from the cache or from the disk, provided every write of \<open>k\<close> by an eviction or a
  flush succeeded and the load of the \<open>get\<close> succeeds. The state \<open>s\<close> is any state whose
  dict has no key twice, as every dict has.
\<close>

theorem set_then_get:
  assumes "k \<noteq> []" and "length k \<le> 256"
    and "distinct (map fst (cache s))"
    and "md5 k \<noteq> None"
    and "clash_free md5 (config s) k (keys_in_play s cs)"
    and "ws k = WrOk"
    and "list_all (keeps k) cs"
  shows "fst (get md5 now' IoOk k (run md5 cs (snd (set_key md5 now ws k v s)))) = Inr v"
proof -
  let ?s1 = "snd (set_key md5 now ws k v s)"
  have c0: "clash_free md5 (config s) k (map fst (cache s))"
    using assms(5) by (auto simp: clash_free_iff keys_in_play_def)
  have h: "holds md5 k v ?s1"
    using assms(1,2,4) c0 assms(6,3) by (rule set_key_establishes)
  have "set (keys_in_play ?s1 cs) \<subseteq> set (keys_in_play s cs) \<union> {k}"
    using set_key_keys [of md5 now ws k v s] by (auto simp: keys_in_play_def simp del: set_map)
  with assms(5) have c1: "clash_free md5 (config ?s1) k (keys_in_play ?s1 cs)"
    by (auto simp: clash_free_iff)
  have d: "distinct (map fst (cache ?s1))"
    using assms(3) by (rule set_key_distinct)
  have "holds md5 k v (run md5 cs ?s1)"
    using h assms(4) c1 d assms(7) by (rule run_holds)
  with assms(1,2) show ?thesis
    by (rule get_of_holds)
qed

text \<open>
  Claim C6 as it is stated fails when the disk does. With \<open>cache_size = 1\<close> and a key
  \<open>h\<close> that was read once, \<open>set("a", 1)\<close> evicts \<open>a\<close> itself, the entry with the lowest
  count, and writes it. A \<open>get("a")\<close> that cannot read the file returns \<open>None\<close>:
  \<open>_load_from_disk\<close> turns every exception into \<open>None\<close>.
\<close>

theorem get_after_set_counterexample:
  "(let s = run example_md5
              [Set 1 (\<lambda>_. WrOk) ''h'' (PyObj 0), Get 2 IoOk ''h'', Set 3 (\<lambda>_. WrOk) ''a'' (PyObj 1)]
              (example_engine 1)
    in cache s = [(''h'', \<lparr>val = PyObj 0, timestamp = 1, dirty = True, access_count = 2\<rparr>)]
       \<and> get_file_path example_md5 (config s) ''a'' = Inr ''./fdb_data/00/00a.fdb''
       \<and> files s ''./fdb_data/00/00a.fdb'' = Some (Record ''a'' (PyObj 1))
       \<and> fst (get example_md5 4 IoErr ''a'' s) = Inr PyNone
       \<and> fst (get example_md5 4 IoErr ''a'' s) \<noteq> Inr (PyObj 1))"
  by (simp add: run_def engine_defs example_defs)

theorem set_then_get_witness:
  "(let s = run first_char_md5 [Set 1 (\<lambda>_. WrOk) ''h'' (PyObj 0), Get 2 IoOk ''h''] (example_engine 1);
        s' = snd (set_key first_char_md5 3 (\<lambda>_. WrOk) ''a'' (PyObj 1) s);
        cs = [Get 4 IoOk ''h'', Set 5 (\<lambda>_. WrOk) ''b'' (PyObj 2), Flush (\<lambda>_. WrOk), Delete IoOk ''b'']
    in ''a'' \<noteq> [] \<and> length ''a'' \<le> 256
       \<and> distinct (map fst (cache s))
       \<and> first_char_md5 ''a'' \<noteq> None
       \<and> get_file_path first_char_md5 (config s) ''ab'' = get_file_path first_char_md5 (config s) ''a''
       \<and> keys_in_play s cs = [''h'', ''h'', ''b'', ''b'']
       \<and> clash_free first_char_md5 (config s) ''a'' (keys_in_play s cs)
       \<and> list_all (keeps ''a'') cs
       \<and> map fst (cache s') = [''h'']
       \<and> map fst (cache (run first_char_md5 cs s')) = [''h'']
       \<and> fst (get first_char_md5 6 IoOk ''a'' (run first_char_md5 cs s')) = Inr (PyObj 1))"
proof -
  define s where "s = run first_char_md5 [Set 1 (\<lambda>_. WrOk) ''h'' (PyObj 0), Get 2 IoOk ''h''] (example_engine 1)"
  define s' where "s' = snd (set_key first_char_md5 3 (\<lambda>_. WrOk) ''a'' (PyObj 1) s)"
  define cs :: "(char, int) call list"
    where "cs = [Get 4 IoOk ''h'', Set 5 (\<lambda>_. WrOk) ''b'' (PyObj 2), Flush (\<lambda>_. WrOk), Delete IoOk ''b'']"
  have k1: "''a'' \<noteq> []" and k2: "length ''a'' \<le> 256"
    by simp_all
  have c: "cache s = [(''h'', \<lparr>val = PyObj 0, timestamp = 1, dirty = True, access_count = 2\<rparr>)]"
    and cf: "config s = example_config 1"
    by (simp_all add: s_def run_def engine_defs example_defs)
  have d: "distinct (map fst (cache s))"
    by (simp add: c)
  have enc: "first_char_md5 ''a'' \<noteq> None"
    by (simp add: first_char_md5_def)
  have col: "get_file_path first_char_md5 (config s) ''ab'' = get_file_path first_char_md5 (config s) ''a''"
    by (simp add: get_file_path_def first_char_md5_def)
  have kip: "keys_in_play s cs = [''h'', ''h'', ''b'', ''b'']"
    by (simp add: keys_in_play_def c cs_def)
  have cl: "clash_free first_char_md5 (config s) ''a'' (keys_in_play s cs)"
    by (simp add: kip cf clash_free_def get_file_path_def first_char_md5_def example_config_def)
  have w: "(\<lambda>_. WrOk) ''a'' = WrOk"
    by simp
  have kp: "list_all (keeps ''a'') cs"
    by (simp add: cs_def)
  have e1: "map fst (cache s') = [''h'']"
    by (simp add: s'_def s_def run_def engine_defs example_defs)
  have e2: "map fst (cache (run first_char_md5 cs s')) = [''h'']"
    by (simp add: cs_def s'_def s_def run_def engine_defs example_defs)
  have g: "fst (get first_char_md5 6 IoOk ''a'' (run first_char_md5 cs s')) = Inr (PyObj 1)"
    unfolding s'_def by (rule set_then_get [OF k1 k2 d enc cl w kp])
  show ?thesis
    unfolding Let_def s_def [symmetric] s'_def [symmetric] cs_def [symmetric]
    by (intro conjI k1 k2 d enc col kip cl kp e1 e2 g)
qed

subsection \<open>Stop, when the writes succeed\<close>

text \<open>
  What \<open>stop\<close> does achieve, with nothing running at the \<open>await\<close> of its \<open>flush\<close>: no
  entry is dirty afterwards, whatever the disk did; and a value the engine holds for \<open>k\<close>
  is in the file of \<open>k\<close> afterwards when the write of \<open>k\<close> succeeds and no other key of
  the cache has that file, so that a fresh engine on the same files finds it.
\<close>

lemma run_saves_returned: "r \<in> set (snd (run_saves md5 cfg ws xs fs)) \<Longrightarrow> \<not> is_exception r"
  by (induction xs arbitrary: fs) (auto simp: split_def Let_def)

lemma flush_commit_map_of:
  "map_of (fst (flush_commit zs c n)) k =
     (case map_of c k of
        None \<Rightarrow> None
      | Some e \<Rightarrow> Some (if \<exists>r. (k, r) \<in> set zs \<and> \<not> is_exception r then e\<lparr>dirty := False\<rparr> else e))"
proof (induction zs c n rule: flush_commit.induct)
  case (1 c n)
  then show ?case by (simp split: option.splits)
next
  case (2 k' result rest c n)
  show ?case
  proof (cases "map_of c k'")
    case None
    with 2 show ?thesis
      by (auto split: option.splits)
  next
    case (Some entry)
    show ?thesis
    proof (cases "is_exception result")
      case True
      with 2 Some show ?thesis
        by (auto split: option.splits)
    next
      case False
      with 2 Some show ?thesis
        by (auto simp: AList.update_conv' split: option.splits)
    qed
  qed
qed

lemma flush_leaves_none_dirty:
  assumes "distinct (map fst (cache s))" and "(k, e) \<in> set (cache (snd (flush md5 ws s)))"
  shows "\<not> dirty e"
proof (cases "dirty_entries (cache s) = []")
  case True
  with assms(2) have "(k, e) \<in> set (cache s)"
    by (simp add: flush_def)
  with True show ?thesis
    by (auto simp: dirty_entries_def filter_empty_conv)
next
  case False
  let ?snap = "dirty_entries (cache s)"
  let ?rs = "snd (run_saves md5 (config s) ws ?snap (files s))"
  let ?zs = "zip (map fst ?snap) ?rs"
  have c': "cache (snd (flush md5 ws s)) = fst (flush_commit ?zs (cache s) 0)"
    using False by (simp add: flush_def flush_writes_def flush_finish_def Let_def split_def)
  have "distinct (map fst (cache (snd (flush md5 ws s))))"
    using assms(1) by (rule flush_distinct)
  with assms(2) have m: "map_of (fst (flush_commit ?zs (cache s) 0)) k = Some e"
    by (simp add: c')
  then obtain e0 where e0: "map_of (cache s) k = Some e0"
    and e: "e = (if \<exists>r. (k, r) \<in> set ?zs \<and> \<not> is_exception r then e0\<lparr>dirty := False\<rparr> else e0)"
    by (auto simp: flush_commit_map_of split: option.splits)
  show ?thesis
  proof (cases "dirty e0")
    case True
    from e0 have "(k, e0) \<in> set (cache s)" by (rule map_of_SomeD)
    with True have "k \<in> set (map fst ?snap)"
      by (force simp: dirty_entries_def)
    then obtain r where r: "(k, r) \<in> set ?zs"
      by (metis in_set_impl_in_set_zip1 length_map run_saves_length)
    then have "r \<in> set ?rs" by (rule set_zip_rightD)
    then have "\<not> is_exception r" by (rule run_saves_returned)
    with r e show ?thesis by auto
  next
    case False
    with e show ?thesis by auto
  qed
qed

lemma stop_config [simp]: "config (stop md5 ws s) = config s"
  by (simp add: stop_def)

lemma stop_leaves_none_dirty:
  assumes "distinct (map fst (cache s))" and "(k, e) \<in> set (cache (stop md5 ws s))"
  shows "\<not> dirty e"
  using assms flush_leaves_none_dirty [of "s\<lparr>running := False\<rparr>" k e md5 ws]
  by (simp add: stop_def)

lemma stop_persists:
  assumes "holds md5 k v s" and "md5 k \<noteq> None"
    and "clash_free md5 (config s) k (map fst (cache s))" and "ws k = WrOk"
    and "distinct (map fst (cache s))"
  shows "stored md5 k v (stop md5 ws s)"
proof -
  let ?s0 = "s\<lparr>running := False\<rparr>"
  have "holds md5 k v ?s0 = holds md5 k v s"
    by (rule holds_eqI) simp_all
  with assms have h: "holds md5 k v (stop md5 ws s)"
    unfolding stop_def by (intro flush_holds) simp_all
  show ?thesis
  proof (cases "map_of (cache (stop md5 ws s)) k")
    case None
    with h show ?thesis by (simp add: holds_def)
  next
    case (Some e)
    then have "(k, e) \<in> set (cache (stop md5 ws s))" by (rule map_of_SomeD)
    with assms(5) have "\<not> dirty e" by (rule stop_leaves_none_dirty)
    with h Some show ?thesis by (simp add: holds_def)
  qed
qed

lemma reopen_after_stop:
  assumes "k \<noteq> []" and "length k \<le> 256"
    and "holds md5 k v s" and "md5 k \<noteq> None"
    and "clash_free md5 (config s) k (map fst (cache s))" and "ws k = WrOk"
    and "distinct (map fst (cache s))"
  shows "fst (get md5 now IoOk k (create_engine (config s) (files (stop md5 ws s)))) = Inr v"
proof -
  have "stored md5 k v (stop md5 ws s)"
    using assms(3-7) by (rule stop_persists)
  then have "holds md5 k v (create_engine (config s) (files (stop md5 ws s)))"
    by (simp add: holds_def stored_def create_engine_def)
  with assms(1,2) show ?thesis
    by (rule get_of_holds)
qed

end
